theory Spec2Isabelle
  imports Complex_Main "HOL-Library.Sublist" "HOL-Library.Log_Nat" "HOL-Library.Multiset"
begin

section \<open>Data model\<close>

text \<open>
  The development embeds the two modules of the repository: \<^verbatim>\<open>modules/messages.js\<close>
  (\<^verbatim>\<open>getMessages\<close>, \<^verbatim>\<open>getMessageDetail\<close>, \<^verbatim>\<open>downloadMessageMedia\<close>) and the class
  \<^verbatim>\<open>DownloadChannel\<close>. JavaScript values are modelled only as far as the code inspects
  them: an argument that may be missing is an \<open>option\<close>, a thrown \<^verbatim>\<open>Error\<close> is a value
  \<open>Error msg\<close> returned on the left of a sum.
\<close>

datatype error = Error (err_message: string)

text \<open>
  A value read from the \<^verbatim>\<open>downloadableFiles\<close> object; the code only tests its
  truthiness. \<open>JObject\<close> stands for every object and function: all of them are truthy.
\<close>

datatype jsval = JUndefined | JNull | JBool bool | JNum int | JNaN | JStr string | JObject

fun truthy :: "jsval \<Rightarrow> bool" where
  "truthy JUndefined = False"
| "truthy JNull = False"
| "truthy (JBool b) = b"
| "truthy (JNum n) = (n \<noteq> 0)"
| "truthy JNaN = False"
| "truthy (JStr s) = (s \<noteq> [])"
| "truthy JObject = True"

text \<open>
  An object as far as reading a property sees it: its own properties, and the properties
  it inherits along its prototype chain. In both lists the first entry of a key counts.
\<close>

record jsobject =
  own_properties :: "(string \<times> jsval) list"
  inherited_properties :: "(string \<times> jsval) list"

text \<open>
  \<^verbatim>\<open>obj[key]\<close>: the own property if there is one, else the inherited one, else
  \<^verbatim>\<open>undefined\<close>.
\<close>

definition get_property :: "jsobject \<Rightarrow> string \<Rightarrow> jsval" where
  "get_property obj k =
     (case map_of (own_properties obj) k of
        Some v \<Rightarrow> v
      | None \<Rightarrow> (case map_of (inherited_properties obj) k of Some v \<Rightarrow> v | None \<Rightarrow> JUndefined))"

text \<open>
  What every object written as a literal or parsed from JSON inherits from
  \<^verbatim>\<open>Object.prototype\<close>: eleven functions, and the accessor \<^verbatim>\<open>__proto__\<close>, which yields the
  prototype itself.
\<close>

definition Object_prototype :: "(string \<times> jsval) list" where
  "Object_prototype =
     map (\<lambda>k. (k, JObject))
       [''constructor'', ''__proto__'', ''__defineGetter__'', ''__defineSetter__'',
        ''__lookupGetter__'', ''__lookupSetter__'', ''hasOwnProperty'', ''isPrototypeOf'',
        ''propertyIsEnumerable'', ''toLocaleString'', ''toString'', ''valueOf'']"

definition plain_object :: "(string \<times> jsval) list \<Rightarrow> jsobject" where
  "plain_object props = \<lparr>own_properties = props, inherited_properties = Object_prototype\<rparr>"

text \<open>
  JavaScript numbers are doubles. The numbers of the flood wait are naturals that came
  through \<^verbatim>\<open>parseInt\<close> and a product: an integer that a double represents, or
  \<^verbatim>\<open>Infinity\<close>.
\<close>

datatype jsnum = Finite int | Infinity

text \<open>The channel handle: a number, a string, or missing.\<close>

datatype chan = ChanUndefined | ChanNum int | ChanStr string

fun chan_truthy :: "chan \<Rightarrow> bool" where
  "chan_truthy ChanUndefined = False"
| "chan_truthy (ChanNum n) = (n \<noteq> 0)"
| "chan_truthy (ChanStr s) = (s \<noteq> [])"

datatype client = Client

datatype poll = Poll string

record webpage =
  wp_url :: "string option"
  wp_id :: string

record media =
  md_webpage :: "webpage option"
  md_poll :: "poll option"

record message =
  msg_id :: int
  msg_text :: string
  msg_date :: int
  msg_out :: bool
  msg_media :: "media option"
  msg_fromUser :: "int option"
  msg_peerUser :: "int option"

text \<open>The second argument of \<^verbatim>\<open>client.getMessages\<close>: \<^verbatim>\<open>{limit, offsetId}\<close> or \<^verbatim>\<open>{ids}\<close>.\<close>

datatype request = ByOffset int int | ByIds "int list"

text \<open>One element of the array that \<^verbatim>\<open>recordMessages\<close> appends to \<^verbatim>\<open>all_message.json\<close>.\<close>

record log_entry =
  le_id :: int
  le_message :: string
  le_date :: int
  le_out :: bool
  le_hasMedia :: bool
  le_sender :: "int option"
  le_mediaType :: "string option"
  le_mediaPath :: "string option"
  le_mediaName :: "string option"

text \<open>The persisted selection store (\<^verbatim>\<open>utils/file-helper\<close>).\<close>

record selection =
  sel_channelId :: "chan"
  sel_messageOffsetId :: int

text \<open>
  Observable effects, in the order in which they happen. \<open>Sleep ms jitter\<close> is a timer
  that \<^verbatim>\<open>wait\<close> starts with the delay \<open>ms + jitter\<close> milliseconds, \<open>SleepInfinity\<close> one that
  it starts with the delay \<^verbatim>\<open>Infinity\<close>; \<open>TaskStart\<close> and \<open>TaskSettle\<close> mark the creation
  and the settlement of the promise of one download task.
\<close>

datatype event =
    Sleep int real
  | Requested int
  | ClientGetMessages chan request
  | ClientDownloadMedia int string
  | WriteFile string string
  | SleepInfinity
  | TaskStart int
  | TaskSettle int bool
  | RecordMessages "int list"
  | PersistCursor int
  | Progress int int

text \<open>
  Everything outside the two modules is an oracle: the clock, the random source, the
  remote client and the file system answer as a function of the number of interactions
  so far (\<open>ticks\<close>), so that any behaviour of the environment, also a failure at one call
  and a success at the next, is an \<open>env\<close>. The helpers of \<^verbatim>\<open>utils/helper\<close>, those of Node's
  \<^verbatim>\<open>path\<close> and the built-in \<^verbatim>\<open>String.prototype.toLowerCase\<close> are parameters: pure functions
  of their arguments that do not throw, about which nothing else is assumed. The delays
  that the code writes as constants and the time stamps are integers, the random source
  is a real; calls of the logger are left out.
\<close>

record env =
  date_now :: "nat \<Rightarrow> int"
  math_random :: "nat \<Rightarrow> real"
  client_getMessages :: "nat \<Rightarrow> chan \<Rightarrow> request \<Rightarrow> error + message list"
  client_downloadMedia :: "nat \<Rightarrow> message \<Rightarrow> string \<Rightarrow> error option"
  fs_writeFileSync :: "nat \<Rightarrow> string \<Rightarrow> error option"
  getMediaType :: "message \<Rightarrow> string"
  getMediaPath :: "message \<Rightarrow> string option \<Rightarrow> string"
  circularStringify :: "poll \<Rightarrow> string"
  path_join :: "string \<Rightarrow> string \<Rightarrow> string"
  path_basename :: "string \<Rightarrow> string"
  path_extname :: "string \<Rightarrow> string"
  toLowerCase :: "string \<Rightarrow> string"
  export_folder :: "chan \<Rightarrow> string"
  id_str :: "int \<Rightarrow> string"

text \<open>
  The fields of a \<^verbatim>\<open>DownloadChannel\<close> object as the constructor declares them
  (\<^verbatim>\<open>rateLimitHit\<close>, which no method reads or writes, is left out); the two local
  counters of \<^verbatim>\<open>downloadChannel\<close> that its download closures capture and mutate; then
  the state outside the object: the interaction counter, the files on disk, the export
  log, the persisted selection and the trace of effects.
\<close>

record world =
  outputFolder :: "string option"
  downloadableFiles :: "jsobject option"
  requestCount :: int
  lastRequestTime :: int
  totalDownloaded :: int
  totalMessages :: int
  totalMediaMessages :: int
  skippedFiles :: int
  currentBatchDownloaded :: int
  currentBatchSkipped :: int
  ticks :: nat
  files :: "string list"
  exportLog :: "log_entry list"
  lastSelection :: selection
  trace :: "event list"

definition MAX_PARALLEL_DOWNLOAD :: nat where "MAX_PARALLEL_DOWNLOAD = 12"
definition MESSAGE_LIMIT :: int where "MESSAGE_LIMIT = 8192"
definition RATE_LIMIT_DELAY :: int where "RATE_LIMIT_DELAY = 1000"
definition DOWNLOAD_DELAY :: int where "DOWNLOAD_DELAY = 500"
definition MAX_RETRIES :: int where "MAX_RETRIES = 3"
definition BACKOFF_BASE :: int where "BACKOFF_BASE = 1000"

definition emit :: "event \<Rightarrow> world \<Rightarrow> world" where
  "emit e w = w\<lparr>trace := trace w @ [e]\<rparr>"

definition tick :: "world \<Rightarrow> world" where
  "tick w = w\<lparr>ticks := Suc (ticks w)\<rparr>"

section \<open>The module \<^verbatim>\<open>messages.js\<close>\<close>

definition getMessages ::
  "env \<Rightarrow> client option \<Rightarrow> chan \<Rightarrow> int \<Rightarrow> int \<Rightarrow> world \<Rightarrow> (error + message list) \<times> world" where
  "getMessages E cl channelId limit offsetId w =
     (if cl = None \<or> \<not> chan_truthy channelId then
        (Inl (Error ''Client and channelId are required''), w)
      else
        (let w1 = tick (emit (ClientGetMessages channelId (ByOffset limit offsetId)) w) in
         case client_getMessages E (ticks w) channelId (ByOffset limit offsetId) of
           Inr result \<Rightarrow> (Inr result, w1)
         | Inl err \<Rightarrow> (Inl (Error (''Failed to get messages: '' @ err_message err)), w1)))"

definition getMessageDetail ::
  "env \<Rightarrow> client option \<Rightarrow> chan \<Rightarrow> int list option \<Rightarrow> world \<Rightarrow> (error + message list) \<times> world" where
  "getMessageDetail E cl channelId messageIds w =
     (case messageIds of
        None \<Rightarrow> (Inl (Error ''Client, channelId, and messageIds are required''), w)
      | Some ids \<Rightarrow>
          if cl = None \<or> \<not> chan_truthy channelId then
            (Inl (Error ''Client, channelId, and messageIds are required''), w)
          else
            (let w1 = tick (emit (ClientGetMessages channelId (ByIds ids)) w) in
             case client_getMessages E (ticks w) channelId (ByIds ids) of
               Inr result \<Rightarrow> (Inr result, w1)
             | Inl err \<Rightarrow> (Inl (Error (''Failed to get message details: '' @ err_message err)), w1)))"

text \<open>
  \<^verbatim>\<open>fs.writeFileSync\<close>: the oracle decides whether the write throws; a successful write
  leaves the file on disk.
\<close>

definition writeFileSync :: "env \<Rightarrow> string \<Rightarrow> string \<Rightarrow> world \<Rightarrow> (error + unit) \<times> world" where
  "writeFileSync E p content w =
     (case fs_writeFileSync E (ticks w) p of
        Some err \<Rightarrow> (Inl err, tick w)
      | None \<Rightarrow> (Inr (), tick (emit (WriteFile p content) (w\<lparr>files := p # files w\<rparr>))))"

text \<open>
  Modelled from the spec: \<^verbatim>\<open>client.downloadMedia\<close> belongs to the client library; on
  success it "writes bytes to outputPath", on failure it rejects.
\<close>

definition downloadMedia :: "env \<Rightarrow> message \<Rightarrow> string \<Rightarrow> world \<Rightarrow> (error + unit) \<times> world" where
  "downloadMedia E m outputFile w =
     (let w1 = emit (ClientDownloadMedia (msg_id m) outputFile) w in
      case client_downloadMedia E (ticks w) m outputFile of
        Some err \<Rightarrow> (Inl err, tick w1)
      | None \<Rightarrow> (Inr (), tick (w1\<lparr>files := outputFile # files w1\<rparr>)))"

text \<open>
  The body of the \<^verbatim>\<open>try\<close> block of \<^verbatim>\<open>downloadMessageMedia\<close>, for a message that is present:
  the webpage sidecar and the redirection of the target, the poll sidecar, the download.
  \<open>Inl\<close> is an exception that reaches the \<^verbatim>\<open>catch\<close>.
\<close>

definition download_try ::
  "env \<Rightarrow> message \<Rightarrow> string \<Rightarrow> world \<Rightarrow> (error + bool) \<times> world" where
  "download_try E m mediaPath w =
     (case msg_media m of
        None \<Rightarrow> (Inr False, w)
      | Some md \<Rightarrow>
         (let (r1, mediaPath1, w1) =
               (case md_webpage md of
                  None \<Rightarrow> (Inr (), mediaPath, w)
                | Some wp \<Rightarrow>
                   (let (r, w') =
                          (case wp_url wp of
                             None \<Rightarrow> (Inr (), w)
                           | Some url \<Rightarrow>
                               if url = [] then (Inr (), w)
                               else writeFileSync E
                                      (path_join E mediaPath (''../'' @ id_str E (msg_id m) @ ''_url.txt''))
                                      url w)
                    in (r, path_join E mediaPath (''../'' @ wp_id wp @ ''_image.jpeg''), w')))
          in case r1 of
               Inl err \<Rightarrow> (Inl err, w1)
             | Inr _ \<Rightarrow>
                (let (r2, w2) =
                       (case md_poll md of
                          None \<Rightarrow> (Inr (), w1)
                        | Some pl \<Rightarrow> writeFileSync E
                                      (path_join E mediaPath1 (''../'' @ id_str E (msg_id m) @ ''_poll.json''))
                                      (circularStringify E pl) w1)
                 in case r2 of
                      Inl err \<Rightarrow> (Inl err, w2)
                    | Inr _ \<Rightarrow>
                       (case downloadMedia E m mediaPath1 w2 of
                          (Inl err, w3) \<Rightarrow> (Inl err, w3)
                        | (Inr _, w3) \<Rightarrow> (Inr True, w3)))))"

text \<open>
  \<^verbatim>\<open>downloadMessageMedia\<close>: the result is \<open>Inl\<close> when the promise rejects and \<open>Inr b\<close> when
  it resolves with \<open>b\<close>. An empty path is falsy, like a missing one.
\<close>

definition downloadMessageMedia ::
  "env \<Rightarrow> client option \<Rightarrow> message option \<Rightarrow> string option \<Rightarrow> world \<Rightarrow> (error + bool) \<times> world" where
  "downloadMessageMedia E cl msg mediaPath w =
     (case (cl, msg, mediaPath) of
        (Some _, Some m, Some p) \<Rightarrow>
          if p = [] then (Inr False, w)
          else (case download_try E m p w of
                  (Inl err, w1) \<Rightarrow> (Inr False, w1)
                | (Inr b, w1) \<Rightarrow> (Inr b, w1))
      | _ \<Rightarrow> (Inr False, w))"

section \<open>The class \<^verbatim>\<open>DownloadChannel\<close>\<close>

subsection \<open>Waiting, the rate-limit gate and the retry loop\<close>

text \<open>\<^verbatim>\<open>wait(ms)\<close>: a timer of \<open>ms\<close> plus \<^verbatim>\<open>Math.random() * 1000\<close> milliseconds.\<close>

definition wait :: "env \<Rightarrow> int \<Rightarrow> world \<Rightarrow> world" where
  "wait E ms w = tick (emit (Sleep ms (math_random E (ticks w) * 1000)) w)"

text \<open>
  \<^verbatim>\<open>checkRateLimit\<close>. The event \<open>Requested now\<close> marks the two assignments
  \<^verbatim>\<open>this.lastRequestTime = now; this.requestCount++\<close> that record a request.
\<close>

definition checkRateLimit :: "env \<Rightarrow> world \<Rightarrow> world" where
  "checkRateLimit E w =
     (let now = date_now E (ticks w);
          w0 = tick w;
          timeSinceLastRequest = now - lastRequestTime w0;
          w1 = (if requestCount w0 > 10 \<and> timeSinceLastRequest < 60000
                then (wait E 60000 w0)\<lparr>requestCount := 0\<rparr>
                else w0)
      in emit (Requested now) (w1\<lparr>lastRequestTime := now, requestCount := requestCount w1 + 1\<rparr>))"

text \<open>
  \<^verbatim>\<open>retryWithBackoff(fn, retries)\<close>: the \<^verbatim>\<open>for\<close> loop from index \<open>i\<close>. \<open>Inr (Some v)\<close> is
  \<^verbatim>\<open>return v\<close>, \<open>Inl err\<close> is \<^verbatim>\<open>throw error\<close>, and \<open>Inr None\<close> is the loop running out
  without a return (the result is \<^verbatim>\<open>undefined\<close>).
\<close>

definition backoffDelay :: "int \<Rightarrow> int" where
  "backoffDelay i = BACKOFF_BASE * 2 ^ nat i"

function retry_loop ::
  "env \<Rightarrow> (world \<Rightarrow> (error + 'a) \<times> world) \<Rightarrow> int \<Rightarrow> int \<Rightarrow> world \<Rightarrow> (error + 'a option) \<times> world" where
  "retry_loop E fn retries i w =
     (if i < retries then
        (case fn (checkRateLimit E w) of
           (Inr v, w2) \<Rightarrow> (Inr (Some v), w2)
         | (Inl err, w2) \<Rightarrow>
             if i = retries - 1 then (Inl err, w2)
             else retry_loop E fn retries (i + 1) (wait E (backoffDelay i) w2))
      else (Inr None, w))"
  by pat_completeness auto
termination
  by (relation "measure (\<lambda>(E, fn, retries, i, w). nat (retries - i))") auto

declare retry_loop.simps [simp del]

definition retryWithBackoff ::
  "env \<Rightarrow> (world \<Rightarrow> (error + 'a) \<times> world) \<Rightarrow> int \<Rightarrow> world \<Rightarrow> (error + 'a option) \<times> world" where
  "retryWithBackoff E fn retries w = retry_loop E fn retries 0 w"

subsection \<open>Eligibility\<close>

definition hasMedia :: "message \<Rightarrow> bool" where
  "hasMedia m = (msg_media m \<noteq> None)"

text \<open>
  Modelled from the spec: \<^verbatim>\<open>checkFileExist\<close> of \<^verbatim>\<open>utils/helper\<close> is not in the source; the
  spec describes it as the test of "file existence at that path", the path derived for
  the message.
\<close>

definition checkFileExist :: "env \<Rightarrow> message \<Rightarrow> string option \<Rightarrow> world \<Rightarrow> bool" where
  "checkFileExist E m folder w = (getMediaPath E m folder \<in> set (files w))"

text \<open>
  Lower-casing of the letters A to Z, with which \<^verbatim>\<open>toLowerCase\<close> agrees on ASCII strings;
  the concrete environments below use it.
\<close>

definition ascii_toLowerCase :: "string \<Rightarrow> string" where
  "ascii_toLowerCase s =
     map (\<lambda>c. case map_of (zip ''ABCDEFGHIJKLMNOPQRSTUVWXYZ'' ''abcdefghijklmnopqrstuvwxyz'') c of
                 Some d \<Rightarrow> d
               | None \<Rightarrow> c) s"

text \<open>\<^verbatim>\<open>s.replace(".", "")\<close> removes the first dot only.\<close>

fun remove_first_dot :: "string \<Rightarrow> string" where
  "remove_first_dot [] = []"
| "remove_first_dot (c # cs) = (if c = CHR ''.'' then cs else c # remove_first_dot cs)"

text \<open>
  \<^verbatim>\<open>this.downloadableFiles?.[key]\<close>: \<^verbatim>\<open>undefined\<close> while the field is \<^verbatim>\<open>null\<close>, as the
  constructor leaves it, and the property of the object otherwise.
\<close>

definition allow_lookup :: "world \<Rightarrow> string \<Rightarrow> jsval" where
  "allow_lookup w k =
     (case downloadableFiles w of
        None \<Rightarrow> JUndefined
      | Some obj \<Rightarrow> get_property obj k)"

definition js_or :: "jsval \<Rightarrow> jsval \<Rightarrow> jsval" where
  "js_or a b = (if truthy a then a else b)"

definition canDownload :: "env \<Rightarrow> message \<Rightarrow> world \<Rightarrow> jsval" where
  "canDownload E m w =
     (if \<not> hasMedia m then JBool False
      else
        (let mediaType = getMediaType E m;
             mediaPath = getMediaPath E m (outputFolder w);
             fileExists = checkFileExist E m (outputFolder w) w;
             extension = remove_first_dot (toLowerCase E (path_extname E mediaPath));
             allowed = js_or (js_or (allow_lookup w mediaType) (allow_lookup w extension))
                             (allow_lookup w ''all'')
         in if truthy allowed then JBool (\<not> fileExists) else allowed))"

subsection \<open>The export log, the cursor and the progress report\<close>

text \<open>
  Modelled from the spec: \<^verbatim>\<open>appendToJSONArrayFile\<close> of \<^verbatim>\<open>utils/helper\<close> is not in the
  source; it appends the records to "a cumulative JSON-array log".
\<close>

definition appendToJSONArrayFile :: "log_entry list \<Rightarrow> world \<Rightarrow> world" where
  "appendToJSONArrayFile data w = w\<lparr>exportLog := exportLog w @ data\<rparr>"

text \<open>
  \<^verbatim>\<open>recordMessages\<close>; the creation of the output folder is left out. The event marks the
  append with the ids of the recorded messages.
\<close>

definition recordMessages :: "env \<Rightarrow> message list \<Rightarrow> world \<Rightarrow> world" where
  "recordMessages E messages w =
     (let data = map (\<lambda>msg.
            \<lparr> le_id = msg_id msg,
              le_message = msg_text msg,
              le_date = msg_date msg,
              le_out = msg_out msg,
              le_hasMedia = (msg_media msg \<noteq> None),
              le_sender = (case msg_fromUser msg of
                             None \<Rightarrow> msg_peerUser msg
                           | Some u \<Rightarrow> if u \<noteq> 0 then Some u else msg_peerUser msg),
              le_mediaType = (if hasMedia msg then Some (getMediaType E msg) else None),
              le_mediaPath = (if hasMedia msg then Some (getMediaPath E msg (outputFolder w)) else None),
              le_mediaName = (if hasMedia msg
                              then Some (path_basename E (getMediaPath E msg (outputFolder w)))
                              else None) \<rparr>) messages
      in emit (RecordMessages (map msg_id messages)) (appendToJSONArrayFile data w))"

text \<open>
  Modelled from the spec: \<^verbatim>\<open>updateLastSelection\<close> of \<^verbatim>\<open>utils/file-helper\<close> is not in the
  source; it saves the given field into the persisted selection.
\<close>

definition updateLastSelection :: "int \<Rightarrow> world \<Rightarrow> world" where
  "updateLastSelection messageOffsetId w =
     emit (PersistCursor messageOffsetId)
       (w\<lparr>lastSelection := (lastSelection w)\<lparr>sel_messageOffsetId := messageOffsetId\<rparr>\<rparr>)"

text \<open>\<^verbatim>\<open>showProgress\<close> only writes to the log; the report is one event.\<close>

definition showProgress :: "int \<Rightarrow> int \<Rightarrow> world \<Rightarrow> world" where
  "showProgress batchDownloaded batchSkipped w = emit (Progress batchDownloaded batchSkipped) w"

subsection \<open>The counting pass\<close>

definition undefined_error :: error where
  "undefined_error = Error ''Cannot read properties of undefined''"

text \<open>
  The \<^verbatim>\<open>while (true)\<close> loop of \<^verbatim>\<open>countTotalMessages\<close>, with fuel: \<open>None\<close> is a loop that
  has not finished within the given number of pages.
\<close>

fun count_loop ::
  "nat \<Rightarrow> env \<Rightarrow> client option \<Rightarrow> chan \<Rightarrow> int \<Rightarrow> int \<Rightarrow> int \<Rightarrow> world
     \<Rightarrow> ((error + int \<times> int) \<times> world) option" where
  "count_loop 0 E cl channelId offsetId totalCount mediaCount w = None"
| "count_loop (Suc n) E cl channelId offsetId totalCount mediaCount w =
     (case retryWithBackoff E (getMessages E cl channelId 100 offsetId) MAX_RETRIES w of
        (Inl err, w1) \<Rightarrow> Some (Inl err, w1)
      | (Inr None, w1) \<Rightarrow> Some (Inl undefined_error, w1)
      | (Inr (Some messages), w1) \<Rightarrow>
          if messages = [] then Some (Inr (totalCount, mediaCount), w1)
          else count_loop n E cl channelId (msg_id (last messages))
                 (totalCount + int (length messages))
                 (mediaCount + int (length (filter hasMedia messages)))
                 (wait E 1000 w1))"

definition countTotalMessages :: "nat \<Rightarrow> env \<Rightarrow> client option \<Rightarrow> chan \<Rightarrow> world \<Rightarrow> world option" where
  "countTotalMessages n E cl channelId w =
     (case count_loop n E cl channelId 0 0 0 w of
        None \<Rightarrow> None
      | Some (Inr (totalCount, mediaCount), w1) \<Rightarrow>
          Some (w1\<lparr>totalMessages := totalCount, totalMediaMessages := mediaCount\<rparr>)
      | Some (Inl err, w1) \<Rightarrow>
          Some (w1\<lparr>totalMessages := 0, totalMediaMessages := 0\<rparr>))"

subsection \<open>Download tasks\<close>

text \<open>
  A download task is the promise of \<^verbatim>\<open>this.retryWithBackoff(async () => {...})\<close>. Calling an
  \<^verbatim>\<open>async\<close> function runs it up to its first suspension, so the task starts when it is
  created: the synchronous part of its first \<^verbatim>\<open>checkRateLimit\<close> runs inside the \<^verbatim>\<open>for\<close>
  loop of \<^verbatim>\<open>downloadChannel\<close>. That loop does not suspend between the creation of a task
  and the \<^verbatim>\<open>await Promise.all(downloadQueue)\<close> of its batch, and JavaScript runs each
  piece of code to its next suspension, so the rest of every task runs while the
  orchestrator is suspended in that \<^verbatim>\<open>await\<close>. The model runs the queued tasks to
  settlement there, one after the other in queue order.
\<close>

datatype gate = GateOpen | GateWaiting int

text \<open>\<^verbatim>\<open>checkRateLimit\<close> up to its first suspension, and from there to its end.\<close>

definition checkRateLimit_begin :: "env \<Rightarrow> world \<Rightarrow> gate \<times> world" where
  "checkRateLimit_begin E w =
     (let now = date_now E (ticks w);
          w0 = tick w;
          timeSinceLastRequest = now - lastRequestTime w0
      in if requestCount w0 > 10 \<and> timeSinceLastRequest < 60000
         then (GateWaiting now, wait E 60000 w0)
         else (GateOpen, emit (Requested now)
                 (w0\<lparr>lastRequestTime := now, requestCount := requestCount w0 + 1\<rparr>)))"

definition checkRateLimit_resume :: "gate \<Rightarrow> world \<Rightarrow> world" where
  "checkRateLimit_resume g w =
     (case g of
        GateOpen \<Rightarrow> w
      | GateWaiting now \<Rightarrow>
          (let w1 = w\<lparr>requestCount := 0\<rparr>
           in emit (Requested now) (w1\<lparr>lastRequestTime := now, requestCount := requestCount w1 + 1\<rparr>)))"

datatype task = Task (task_msg: message) (task_gate: gate)

definition task_start :: "env \<Rightarrow> message \<Rightarrow> world \<Rightarrow> task \<times> world" where
  "task_start E msg w =
     (case checkRateLimit_begin E (emit (TaskStart (msg_id msg)) w) of
        (g, w1) \<Rightarrow> (Task msg g, w1))"

text \<open>The closure passed to \<^verbatim>\<open>retryWithBackoff\<close> for one message.\<close>

definition download_fn :: "env \<Rightarrow> client option \<Rightarrow> message \<Rightarrow> world \<Rightarrow> (error + bool) \<times> world" where
  "download_fn E cl msg w =
     (let w1 = wait E DOWNLOAD_DELAY w in
      case downloadMessageMedia E cl (Some msg) (Some (getMediaPath E msg (outputFolder w1))) w1 of
        (Inl err, w2) \<Rightarrow> (Inl err, w2)
      | (Inr result, w2) \<Rightarrow>
          (Inr result, w2\<lparr>totalDownloaded := totalDownloaded w2 + 1,
                          currentBatchDownloaded := currentBatchDownloaded w2 + 1\<rparr>))"

text \<open>
  The rest of a task: the end of the first \<^verbatim>\<open>checkRateLimit\<close>, the first call of the
  closure, and on a failure the later iterations of the retry loop.
\<close>

definition task_run :: "env \<Rightarrow> client option \<Rightarrow> task \<Rightarrow> world \<Rightarrow> (error + bool option) \<times> world" where
  "task_run E cl t w =
     (case (case download_fn E cl (task_msg t) (checkRateLimit_resume (task_gate t) w) of
              (Inr v, w2) \<Rightarrow> (Inr (Some v), w2)
            | (Inl err, w2) \<Rightarrow>
                if 0 = MAX_RETRIES - 1 then (Inl err, w2)
                else retry_loop E (download_fn E cl (task_msg t)) MAX_RETRIES 1
                       (wait E (backoffDelay 0) w2)) of
        (r, w3) \<Rightarrow> (r, emit (TaskSettle (msg_id (task_msg t)) (r = Inr (Some True))) w3))"

text \<open>
  \<^verbatim>\<open>await Promise.all(downloadQueue)\<close>: every queued task settles; the join throws the
  first rejection, if there is one.
\<close>

fun join_all :: "env \<Rightarrow> client option \<Rightarrow> task list \<Rightarrow> world \<Rightarrow> (error + unit) \<times> world" where
  "join_all E cl [] w = (Inr (), w)"
| "join_all E cl (t # ts) w =
     (case task_run E cl t w of
        (r, w1) \<Rightarrow>
          (case join_all E cl ts w1 of
             (rs, w2) \<Rightarrow> (case r of Inl err \<Rightarrow> (Inl err, w2) | Inr _ \<Rightarrow> (rs, w2))))"

subsection \<open>One page\<close>

text \<open>
  The \<^verbatim>\<open>for (const msg of details)\<close> loop, with the queue as an argument. The result is
  the queue left for the final join.
\<close>

fun download_loop ::
  "env \<Rightarrow> client option \<Rightarrow> message list \<Rightarrow> task list \<Rightarrow> world \<Rightarrow> (error + task list) \<times> world" where
  "download_loop E cl [] downloadQueue w = (Inr downloadQueue, w)"
| "download_loop E cl (msg # rest) downloadQueue w =
     (case (if truthy (canDownload E msg w) then
              (case task_start E msg w of (t, w') \<Rightarrow> (downloadQueue @ [t], w'))
            else if hasMedia msg then
              (downloadQueue, w\<lparr>skippedFiles := skippedFiles w + 1,
                                currentBatchSkipped := currentBatchSkipped w + 1\<rparr>)
            else (downloadQueue, w)) of
        (q1, w1) \<Rightarrow>
          if length q1 \<ge> MAX_PARALLEL_DOWNLOAD then
            (case join_all E cl q1 w1 of
               (Inl err, w2) \<Rightarrow> (Inl err, w2)
             | (Inr _, w2) \<Rightarrow> download_loop E cl rest [] (wait E RATE_LIMIT_DELAY w2))
          else download_loop E cl rest q1 w1)"

text \<open>
  The scheduling part of a page: the loop and the join of the remaining downloads.
\<close>

definition download_stage :: "env \<Rightarrow> client option \<Rightarrow> message list \<Rightarrow> world \<Rightarrow> (error + unit) \<times> world" where
  "download_stage E cl details w =
     (case download_loop E cl details []
             (w\<lparr>currentBatchDownloaded := 0, currentBatchSkipped := 0\<rparr>) of
        (Inl err, w1) \<Rightarrow> (Inl err, w1)
      | (Inr q, w1) \<Rightarrow> if length q > 0 then join_all E cl q w1 else (Inr (), w1))"

text \<open>
  The body of the \<^verbatim>\<open>try\<close> block of \<^verbatim>\<open>downloadChannel\<close> from the page fetch to the delay
  before the recursive call. \<open>Inr None\<close> is the \<^verbatim>\<open>return\<close> on an empty page, \<open>Inr (Some c)\<close>
  asks for the recursive call with cursor \<open>c\<close>.
\<close>

definition process_page ::
  "env \<Rightarrow> client option \<Rightarrow> chan \<Rightarrow> int \<Rightarrow> world \<Rightarrow> (error + int option) \<times> world" where
  "process_page E cl channelId offsetMsgId w =
     (case retryWithBackoff E (getMessages E cl channelId MESSAGE_LIMIT offsetMsgId) MAX_RETRIES w of
        (Inl err, w1) \<Rightarrow> (Inl err, w1)
      | (Inr None, w1) \<Rightarrow> (Inl undefined_error, w1)
      | (Inr (Some messages), w1) \<Rightarrow>
          if messages = [] then (Inr None, showProgress 0 0 w1)
          else
            (case retryWithBackoff E
                    (getMessageDetail E cl channelId (Some (map msg_id messages))) MAX_RETRIES w1 of
               (Inl err, w2) \<Rightarrow> (Inl err, w2)
             | (Inr None, w2) \<Rightarrow> (Inl undefined_error, w2)
             | (Inr (Some details), w2) \<Rightarrow>
                 (case download_stage E cl details w2 of
                    (Inl err, w3) \<Rightarrow> (Inl err, w3)
                  | (Inr _, w3) \<Rightarrow>
                      (let w4 = recordMessages E details w3;
                           w5 = updateLastSelection (msg_id (last messages)) w4;
                           w6 = showProgress (currentBatchDownloaded w5) (currentBatchSkipped w5) w5;
                           w7 = wait E RATE_LIMIT_DELAY w6
                       in (Inr (Some (msg_id (last messages))), w7)))))"

subsection \<open>Flood control and the orchestrator\<close>

text \<open>\<^verbatim>\<open>haystack.includes(needle)\<close>\<close>

fun str_includes :: "string \<Rightarrow> string \<Rightarrow> bool" where
  "str_includes [] needle = (needle = [])"
| "str_includes (c # cs) needle = (prefix needle (c # cs) \<or> str_includes cs needle)"

definition is_digit :: "char \<Rightarrow> bool" where
  "is_digit c = (c \<in> set ''0123456789'')"

text \<open>\<^verbatim>\<open>s.match(/\d+/)?.[0]\<close>: the first maximal run of digits, empty when there is none.\<close>

definition first_digits :: "string \<Rightarrow> string" where
  "first_digits s = takeWhile is_digit (dropWhile (\<lambda>c. \<not> is_digit c) s)"

text \<open>The number that a string of decimal digits writes.\<close>

definition digits_value :: "string \<Rightarrow> nat" where
  "digits_value ds = foldl (\<lambda>acc c. 10 * acc + (of_char c - 48)) 0 ds"

text \<open>
  The double nearest to a natural number, ties to the even significand: every number
  below \<open>2 ^ 53\<close> is a double; a larger one of \<open>k\<close> bits keeps its 53 leading bits, and the
  result is \<^verbatim>\<open>Infinity\<close> from \<open>2 ^ 1024\<close> on.
\<close>

definition round_double :: "nat \<Rightarrow> jsnum" where
  "round_double n =
     (if n < 2 ^ 53 then Finite (int n)
      else
        (let e = floorlog 2 n - 53;
             q = n div 2 ^ e;
             r = n mod 2 ^ e;
             q' = (if 2 ^ e < 2 * r \<or> (2 * r = 2 ^ e \<and> odd q) then q + 1 else q)
         in if q' * 2 ^ e < 2 ^ 1024 then Finite (int (q' * 2 ^ e)) else Infinity))"

text \<open>
  \<^verbatim>\<open>parseInt(ds)\<close> for a string of decimal digits that is not empty, which is all that the
  code passes to it (a match of \<^verbatim>\<open>/\\d+/\<close> or the literal \<^verbatim>\<open>"300"\<close>): the double nearest to
  the number written. Then the product of such a number with a natural constant.
\<close>

definition parseInt :: "string \<Rightarrow> jsnum" where
  "parseInt ds = round_double (digits_value ds)"

definition js_times :: "jsnum \<Rightarrow> nat \<Rightarrow> jsnum" where
  "js_times x k = (case x of Finite a \<Rightarrow> round_double (nat a * k) | Infinity \<Rightarrow> Infinity)"

definition is_flood :: "error \<Rightarrow> bool" where
  "is_flood err = (err_message err \<noteq> [] \<and> str_includes (err_message err) ''FLOOD_WAIT'')"

definition flood_wait_time :: "error \<Rightarrow> jsnum" where
  "flood_wait_time err =
     js_times (parseInt (if first_digits (err_message err) = [] then ''300''
                      else first_digits (err_message err))) 1000"

text \<open>
  \<^verbatim>\<open>wait(ms)\<close> for a number that may be \<^verbatim>\<open>Infinity\<close>: the random number is drawn, and the
  delay of the timer is \<^verbatim>\<open>Infinity\<close> whatever it is.
\<close>

definition wait_number :: "env \<Rightarrow> jsnum \<Rightarrow> world \<Rightarrow> world" where
  "wait_number E ms w = (case ms of Finite n \<Rightarrow> wait E n w | Infinity \<Rightarrow> tick (emit SleepInfinity w))"

text \<open>
  \<^verbatim>\<open>downloadChannel\<close>, with fuel for its recursion and for the counting pass: \<open>None\<close> is a
  run that has not finished within the fuel, \<open>Some (Inl err, w)\<close> a run that throws
  \<open>err\<close>, \<open>Some (Inr (), w)\<close> a run that returns.
\<close>

fun downloadChannel ::
  "nat \<Rightarrow> env \<Rightarrow> client option \<Rightarrow> chan \<Rightarrow> int \<Rightarrow> world \<Rightarrow> ((error + unit) \<times> world) option" where
  "downloadChannel 0 E cl channelId offsetMsgId w = None"
| "downloadChannel (Suc n) E cl channelId offsetMsgId w =
     (case (if channelId = ChanUndefined then Some (Inl undefined_error, w)
            else
              (case (if offsetMsgId = 0
                     then countTotalMessages n E cl channelId
                            (w\<lparr>outputFolder := Some (export_folder E channelId)\<rparr>)
                     else Some (w\<lparr>outputFolder := Some (export_folder E channelId)\<rparr>)) of
                 None \<Rightarrow> None
               | Some w1 \<Rightarrow>
                   (case process_page E cl channelId offsetMsgId w1 of
                      (Inl err, w2) \<Rightarrow> Some (Inl err, w2)
                    | (Inr None, w2) \<Rightarrow> Some (Inr (), w2)
                    | (Inr (Some next), w2) \<Rightarrow> downloadChannel n E cl channelId next w2))) of
        None \<Rightarrow> None
      | Some (Inr u, w3) \<Rightarrow> Some (Inr u, w3)
      | Some (Inl err, w3) \<Rightarrow>
          if is_flood err
          then downloadChannel n E cl channelId offsetMsgId (wait_number E (flood_wait_time err) w3)
          else Some (Inl err, w3))"

text \<open>
  The \<^verbatim>\<open>try\<close> block of \<^verbatim>\<open>downloadChannel\<close> as a whole, the recursive call for the next
  page included: \<^verbatim>\<open>downloadChannel\<close> is this block followed by its \<^verbatim>\<open>catch\<close>.
\<close>

definition try_block ::
  "nat \<Rightarrow> env \<Rightarrow> client option \<Rightarrow> chan \<Rightarrow> int \<Rightarrow> world \<Rightarrow> ((error + unit) \<times> world) option" where
  "try_block n E cl channelId offsetMsgId w =
     (if channelId = ChanUndefined then Some (Inl undefined_error, w)
      else
        (case (if offsetMsgId = 0
               then countTotalMessages n E cl channelId
                      (w\<lparr>outputFolder := Some (export_folder E channelId)\<rparr>)
               else Some (w\<lparr>outputFolder := Some (export_folder E channelId)\<rparr>)) of
           None \<Rightarrow> None
         | Some w1 \<Rightarrow>
             (case process_page E cl channelId offsetMsgId w1 of
                (Inl err, w2) \<Rightarrow> Some (Inl err, w2)
              | (Inr None, w2) \<Rightarrow> Some (Inr (), w2)
              | (Inr (Some next), w2) \<Rightarrow> downloadChannel n E cl channelId next w2)))"

section \<open>Notions of the specification and observers of traces\<close>

text \<open>
  The specification speaks of the keys of the allow-set and of the extension of the
  target path; \<open>eligible_spec\<close> is its eligibility predicate, word for word.
\<close>

definition allow_keys :: "world \<Rightarrow> string set" where
  "allow_keys w =
     (case downloadableFiles w of None \<Rightarrow> {} | Some obj \<Rightarrow> fst ` set (own_properties obj))"

definition file_extension :: "env \<Rightarrow> message \<Rightarrow> world \<Rightarrow> string" where
  "file_extension E m w =
     remove_first_dot (toLowerCase E (path_extname E (getMediaPath E m (outputFolder w))))"

definition eligible_spec :: "env \<Rightarrow> message \<Rightarrow> world \<Rightarrow> bool" where
  "eligible_spec E m w =
     (hasMedia m \<and> \<not> checkFileExist E m (outputFolder w) w \<and>
      (getMediaType E m \<in> allow_keys w \<or> file_extension E m w \<in> allow_keys w \<or>
       ''all'' \<in> allow_keys w))"

text \<open>
  The number of requests recorded in a trace whose time stamp lies within the 60 seconds
  before \<open>now\<close>: the specification's "requests issued within the trailing 60-second
  window".
\<close>

definition issued_in_window :: "event list \<Rightarrow> int \<Rightarrow> nat" where
  "issued_in_window tr now =
     length (filter (\<lambda>e. case e of Requested t \<Rightarrow> now - t < 60000 | _ \<Rightarrow> False) tr)"

text \<open>
  What \<^verbatim>\<open>downloadMessageMedia\<close> asks of the file system and of the client for a message
  \<open>m\<close> with the media \<open>md\<close>, called with the path \<open>mediaPath\<close> in the state \<open>w\<close>: whether it
  writes the URL of a webpage (the webpage has a URL that is not empty), the paths of the
  two sidecar files, the path to which a webpage redirects the download, and the answers
  of the oracle to the three calls, each made at the interaction that it is when the
  calls before it have been made and have not failed.
\<close>

definition writes_url :: "media \<Rightarrow> bool" where
  "writes_url md =
     (case md_webpage md of
        None \<Rightarrow> False
      | Some wp \<Rightarrow> (case wp_url wp of None \<Rightarrow> False | Some url \<Rightarrow> url \<noteq> []))"

definition urlPath :: "env \<Rightarrow> message \<Rightarrow> string \<Rightarrow> string" where
  "urlPath E m mediaPath = path_join E mediaPath (''../'' @ id_str E (msg_id m) @ ''_url.txt'')"

definition redirected :: "env \<Rightarrow> media \<Rightarrow> string \<Rightarrow> string" where
  "redirected E md mediaPath =
     (case md_webpage md of
        None \<Rightarrow> mediaPath
      | Some wp \<Rightarrow> path_join E mediaPath (''../'' @ wp_id wp @ ''_image.jpeg''))"

definition pollPath :: "env \<Rightarrow> message \<Rightarrow> media \<Rightarrow> string \<Rightarrow> string" where
  "pollPath E m md mediaPath =
     path_join E (redirected E md mediaPath) (''../'' @ id_str E (msg_id m) @ ''_poll.json'')"

definition url_write_error :: "env \<Rightarrow> message \<Rightarrow> media \<Rightarrow> string \<Rightarrow> world \<Rightarrow> error option" where
  "url_write_error E m md mediaPath w =
     (if writes_url md then fs_writeFileSync E (ticks w) (urlPath E m mediaPath) else None)"

definition poll_write_error :: "env \<Rightarrow> message \<Rightarrow> media \<Rightarrow> string \<Rightarrow> world \<Rightarrow> error option" where
  "poll_write_error E m md mediaPath w =
     (if md_poll md = None then None
      else fs_writeFileSync E (ticks w + (if writes_url md then 1 else 0))
             (pollPath E m md mediaPath))"

definition media_download_error :: "env \<Rightarrow> message \<Rightarrow> media \<Rightarrow> string \<Rightarrow> world \<Rightarrow> error option" where
  "media_download_error E m md mediaPath w =
     client_downloadMedia E
       (ticks w + (if writes_url md then 1 else 0) + (if md_poll md = None then 0 else 1))
       m (redirected E md mediaPath)"





text \<open>Observers of a trace: the download tasks started and settled in it.\<close>

fun is_start :: "event \<Rightarrow> bool" where
  "is_start (TaskStart _) = True"
| "is_start _ = False"

fun is_settle :: "event \<Rightarrow> bool" where
  "is_settle (TaskSettle _ _) = True"
| "is_settle _ = False"

definition starts :: "event list \<Rightarrow> nat" where
  "starts evs = length (filter is_start evs)"

definition settles :: "event list \<Rightarrow> nat" where
  "settles evs = length (filter is_settle evs)"

text \<open>
  The ids of the messages whose tasks start in a trace, and the ids and verdicts with
  which tasks settle in it, both in the order of the trace.
\<close>

definition start_ids :: "event list \<Rightarrow> int list" where
  "start_ids evs = concat (map (\<lambda>e. case e of TaskStart i \<Rightarrow> [i] | _ \<Rightarrow> []) evs)"

definition settlements :: "event list \<Rightarrow> (int \<times> bool) list" where
  "settlements evs = concat (map (\<lambda>e. case e of TaskSettle i b \<Rightarrow> [(i, b)] | _ \<Rightarrow> []) evs)"

text \<open>
  The partition of the detail records of a page by the loop of \<^verbatim>\<open>downloadChannel\<close>, which
  begins in the state \<open>w\<close> with an empty queue. The loop examines the record at position
  \<open>k\<close> in the state in which it has dealt with the \<open>k\<close> records before it; the record
  passes the filter when \<^verbatim>\<open>canDownload\<close> is truthy there. \<open>queued\<close> are the records that pass
  the filter, \<open>skipped\<close> those that do not pass it and carry media.
\<close>

definition examined_in :: "env \<Rightarrow> client option \<Rightarrow> message list \<Rightarrow> world \<Rightarrow> nat \<Rightarrow> world" where
  "examined_in E cl details w k = snd (download_loop E cl (take k details) [] w)"

definition passes_filter :: "env \<Rightarrow> client option \<Rightarrow> message list \<Rightarrow> world \<Rightarrow> nat \<Rightarrow> bool" where
  "passes_filter E cl details w k =
     truthy (canDownload E (details ! k) (examined_in E cl details w k))"

definition queued :: "env \<Rightarrow> client option \<Rightarrow> message list \<Rightarrow> world \<Rightarrow> message list" where
  "queued E cl details w =
     map (nth details) (filter (passes_filter E cl details w) [0..<length details])"

definition skipped :: "env \<Rightarrow> client option \<Rightarrow> message list \<Rightarrow> world \<Rightarrow> message list" where
  "skipped E cl details w =
     map (nth details)
       (filter (\<lambda>k. \<not> passes_filter E cl details w k \<and> hasMedia (details ! k))
          [0..<length details])"

text \<open>The state in which the loop begins: the two counters of the page are 0.\<close>

definition page_start :: "world \<Rightarrow> world" where
  "page_start w = w\<lparr>currentBatchDownloaded := 0, currentBatchSkipped := 0\<rparr>"


text \<open>
  The events of fetching (timers, recorded requests, calls of \<^verbatim>\<open>client.getMessages\<close>), and
  the events inside a download task (those, the media download and the sidecar files).
\<close>

fun fetch_event :: "event \<Rightarrow> bool" where
  "fetch_event (Sleep _ _) = True"
| "fetch_event (Requested _) = True"
| "fetch_event (ClientGetMessages _ _) = True"
| "fetch_event _ = False"

fun background :: "event \<Rightarrow> bool" where
  "background (Sleep _ _) = True"
| "background (Requested _) = True"
| "background (ClientGetMessages _ _) = True"
| "background (ClientDownloadMedia _ _) = True"
| "background (WriteFile _ _) = True"
| "background _ = False"

text \<open>
  A step that leaves the export log, the persisted selection, the counters of downloads
  and skips and the configuration alone, and adds to the trace only events of kind \<open>P\<close>.
\<close>

definition ext_by :: "(event \<Rightarrow> bool) \<Rightarrow> world \<Rightarrow> world \<Rightarrow> bool" where
  "ext_by P w w' \<longleftrightarrow>
     exportLog w' = exportLog w \<and> lastSelection w' = lastSelection w \<and>
     totalDownloaded w' = totalDownloaded w \<and> skippedFiles w' = skippedFiles w \<and>
     currentBatchDownloaded w' = currentBatchDownloaded w \<and>
     currentBatchSkipped w' = currentBatchSkipped w \<and>
     outputFolder w' = outputFolder w \<and> downloadableFiles w' = downloadableFiles w \<and>
     (\<exists>evs. trace w' = trace w @ evs \<and> list_all P evs)"

text \<open>
  The scheduling discipline as a check of a trace, event by event: \<open>s\<close> tasks have been
  started and \<open>t\<close> have settled so far, \<open>prev\<close> is the event before. A task may start only
  while fewer than \<open>MAX_PARALLEL_DOWNLOAD\<close> are unsettled and when every task of the
  earlier batches has settled; the first task of a later batch starts right after the
  delay between batches.
\<close>

fun sched_ok :: "nat \<Rightarrow> nat \<Rightarrow> event option \<Rightarrow> event list \<Rightarrow> bool" where
  "sched_ok s t prev [] = True"
| "sched_ok s t prev (e # es) =
     ((if is_start e then
         s < t + MAX_PARALLEL_DOWNLOAD \<and>
         t = MAX_PARALLEL_DOWNLOAD * (s div MAX_PARALLEL_DOWNLOAD) \<and>
         (if 0 < s \<and> s mod MAX_PARALLEL_DOWNLOAD = 0
          then \<exists>j. prev = Some (Sleep RATE_LIMIT_DELAY j) else True)
       else if is_settle e then t < s
       else True) \<and>
      sched_ok (if is_start e then Suc s else s) (if is_settle e then Suc t else t) (Some e) es)"

definition lastev :: "event option \<Rightarrow> event list \<Rightarrow> event option" where
  "lastev prev evs = (if evs = [] then prev else Some (last evs))"

text \<open>The events of a download stage: those inside tasks, task starts and settlements.\<close>

definition stage_event :: "event \<Rightarrow> bool" where
  "stage_event e = (background e \<or> is_start e \<or> is_settle e)"

text \<open>
  A step of the download stage: it adds the events \<open>evs\<close> to the trace, counts \<open>k\<close>
  downloads in both download counters, and leaves the export log, the persisted
  selection and the configuration alone.
\<close>

definition stage_step :: "nat \<Rightarrow> event list \<Rightarrow> world \<Rightarrow> world \<Rightarrow> bool" where
  "stage_step k evs w w' \<longleftrightarrow>
     trace w' = trace w @ evs \<and> list_all stage_event evs \<and>
     totalDownloaded w' = totalDownloaded w + int k \<and>
     currentBatchDownloaded w' = currentBatchDownloaded w + int k \<and>
     exportLog w' = exportLog w \<and> lastSelection w' = lastSelection w \<and>
     outputFolder w' = outputFolder w \<and> downloadableFiles w' = downloadableFiles w"

text \<open>
  The discipline of a whole run as a check of its trace: a task starts only while fewer
  than \<open>MAX_PARALLEL_DOWNLOAD\<close> are unsettled, and the export log and the cursor are
  written only when every task started so far has settled.
\<close>

fun is_persist :: "event \<Rightarrow> bool" where
  "is_persist (RecordMessages _) = True"
| "is_persist (PersistCursor _) = True"
| "is_persist _ = False"

fun run_ok :: "nat \<Rightarrow> nat \<Rightarrow> event list \<Rightarrow> bool" where
  "run_ok s t [] = True"
| "run_ok s t (e # es) =
     ((if is_start e then s < t + MAX_PARALLEL_DOWNLOAD
       else if is_settle e then t < s
       else if is_persist e then s = t
       else True) \<and>
      run_ok (if is_start e then Suc s else s) (if is_settle e then Suc t else t) es)"

definition run_step :: "world \<Rightarrow> world \<Rightarrow> bool" where
  "run_step w w' \<longleftrightarrow>
     (\<exists>evs. trace w' = trace w @ evs \<and> run_ok 0 0 evs \<and> starts evs = settles evs)"

text \<open>Events that neither start nor settle a task nor write the log or the cursor.\<close>

definition plain_event :: "event \<Rightarrow> bool" where
  "plain_event e = (\<not> is_start e \<and> \<not> is_settle e \<and> \<not> is_persist e)"

section \<open>Concrete inputs\<close>

text \<open>
  A channel of three messages, the second with a photo; an environment that serves it as
  one page and never fails; and a freshly constructed \<^verbatim>\<open>DownloadChannel\<close> that allows
  photos.
\<close>

definition demo_message :: "int \<Rightarrow> media option \<Rightarrow> message" where
  "demo_message i md =
     \<lparr>msg_id = i, msg_text = [], msg_date = 0, msg_out = False, msg_media = md,
      msg_fromUser = None, msg_peerUser = None\<rparr>"

definition photo :: media where
  "photo = \<lparr>md_webpage = None, md_poll = None\<rparr>"

definition demo_page :: "message list" where
  "demo_page = [demo_message 1 None, demo_message 2 (Some photo), demo_message 3 None]"

definition demo_env :: env where
  "demo_env =
     \<lparr>date_now = (\<lambda>k. 1000000 + int k),
      math_random = (\<lambda>k. 1 / 2),
      client_getMessages = (\<lambda>k c r. case r of
          ByOffset l off \<Rightarrow> if off = 0 then Inr demo_page else Inr []
        | ByIds ids \<Rightarrow> Inr (filter (\<lambda>m. msg_id m \<in> set ids) demo_page)),
      client_downloadMedia = (\<lambda>k m p. None),
      fs_writeFileSync = (\<lambda>k p. None),
      getMediaType = (\<lambda>m. ''photo''),
      getMediaPath = (\<lambda>m f. ''export/7/photo/2.jpg''),
      circularStringify = (\<lambda>p. []),
      path_join = (\<lambda>a b. a @ ''/'' @ b),
      path_basename = (\<lambda>a. ''2.jpg''),
      path_extname = (\<lambda>a. ''.jpg''),
      toLowerCase = ascii_toLowerCase,
      export_folder = (\<lambda>c. ''export/7''),
      id_str = (\<lambda>i. ''2'')\<rparr>"

definition demo_world :: world where
  "demo_world =
     \<lparr>outputFolder = None, downloadableFiles = Some (plain_object [(''photo'', JBool True)]),
      requestCount = 0, lastRequestTime = 0,
      totalDownloaded = 0, totalMessages = 0, totalMediaMessages = 0, skippedFiles = 0,
      currentBatchDownloaded = 0, currentBatchSkipped = 0, ticks = 0, files = [], exportLog = [],
      lastSelection = \<lparr>sel_channelId = ChanNum 7, sel_messageOffsetId = 0\<rparr>, trace = []\<rparr>"

text \<open>The same object configured with the key \<^verbatim>\<open>photo\<close> switched off.\<close>

definition flagged_world :: world where
  "flagged_world = demo_world\<lparr>downloadableFiles := Some (plain_object [(''photo'', JBool False)])\<rparr>"

text \<open>
  Eleven requests one hundred seconds apart, and a twelfth one second after the
  eleventh.
\<close>

definition spaced_env :: env where
  "spaced_env = demo_env\<lparr>date_now := (\<lambda>k. if k < 11 then 100000 * (int k + 1) else 1101000)\<rparr>"

definition spaced_world :: world where
  "spaced_world = (checkRateLimit spaced_env ^^ 11) demo_world"


text \<open>
  An environment in which the media type of every message is \<^verbatim>\<open>document\<close> and the
  extension of every target path is \<^verbatim>\<open>.constructor\<close>.
\<close>

definition inherit_env :: env where
  "inherit_env = demo_env\<lparr>getMediaType := (\<lambda>m. ''document''),
                            path_extname := (\<lambda>a. ''.constructor'')\<rparr>"

text \<open>
  A page of thirteen photos with distinct target paths, and an environment whose media
  downloads all fail.
\<close>

definition burst_page :: "message list" where
  "burst_page = map (\<lambda>i. demo_message i (Some photo)) [1, 2, 3, 4, 5, 6, 7, 8, 9, 10, 11, 12, 13]"

definition burst_env :: env where
  "burst_env = demo_env\<lparr>
     client_getMessages := (\<lambda>k c r. case r of
          ByOffset l off \<Rightarrow> if off = 0 then Inr burst_page else Inr []
        | ByIds ids \<Rightarrow> Inr (filter (\<lambda>m. msg_id m \<in> set ids) burst_page)),
     getMediaPath := (\<lambda>m f. replicate (nat (msg_id m)) (CHR ''x''))\<rparr>"

definition failing_env :: env where
  "failing_env = demo_env\<lparr>client_downloadMedia := (\<lambda>k m p. Some (Error ''timeout''))\<rparr>"

text \<open>
  A message with a poll, one with a webpage that has a URL, and an environment in which
  no file can be written.
\<close>

definition poll_message :: message where
  "poll_message = demo_message 4 (Some \<lparr>md_webpage = None, md_poll = Some (Poll ''q'')\<rparr>)"

definition webpage_message :: message where
  "webpage_message =
     demo_message 5 (Some \<lparr>md_webpage = Some \<lparr>wp_url = Some ''http://a'', wp_id = ''9''\<rparr>,
                            md_poll = None\<rparr>)"

definition readonly_env :: env where
  "readonly_env = demo_env\<lparr>fs_writeFileSync := (\<lambda>k p. Some (Error ''EACCES''))\<rparr>"

text \<open>The traces of two concrete runs, for reference.\<close>

definition burst_trace :: "event list" where
  "burst_trace =
   [TaskStart 1, Requested 1000000, TaskStart 2, Requested 1000001,
    TaskStart 3, Requested 1000002, TaskStart 4, Requested 1000003,
    TaskStart 5, Requested 1000004, TaskStart 6, Requested 1000005,
    TaskStart 7, Requested 1000006, TaskStart 8, Requested 1000007,
    TaskStart 9, Requested 1000008, TaskStart 10, Requested 1000009,
    TaskStart 11, Requested 1000010, TaskStart 12, Sleep 60000 500,
    Sleep 500 500, ClientDownloadMedia 1 ''x'', TaskSettle 1 True,
    Sleep 500 500, ClientDownloadMedia 2 ''xx'', TaskSettle 2 True,
    Sleep 500 500, ClientDownloadMedia 3 ''xxx'', TaskSettle 3 True,
    Sleep 500 500, ClientDownloadMedia 4 ''xxxx'', TaskSettle 4 True,
    Sleep 500 500, ClientDownloadMedia 5 ''xxxxx'', TaskSettle 5 True,
    Sleep 500 500, ClientDownloadMedia 6 ''xxxxxx'', TaskSettle 6 True,
    Sleep 500 500, ClientDownloadMedia 7 ''xxxxxxx'', TaskSettle 7 True,
    Sleep 500 500, ClientDownloadMedia 8 ''xxxxxxxx'', TaskSettle 8 True,
    Sleep 500 500, ClientDownloadMedia 9 ''xxxxxxxxx'', TaskSettle 9 True,
    Sleep 500 500, ClientDownloadMedia 10 ''xxxxxxxxxx'', TaskSettle 10 True,
    Sleep 500 500, ClientDownloadMedia 11 ''xxxxxxxxxxx'', TaskSettle 11 True,
    Requested 1000011, Sleep 500 500, ClientDownloadMedia 12 ''xxxxxxxxxxxx'',
    TaskSettle 12 True, Sleep 1000 500, TaskStart 13, Requested 1000038,
    Sleep 500 500, ClientDownloadMedia 13 ''xxxxxxxxxxxxx'',
    TaskSettle 13 True]"

definition demo_run_trace :: "event list" where
  "demo_run_trace =
   [Requested 1000000, ClientGetMessages (ChanNum 7) (ByOffset 100 0),
    Sleep 1000 500, Requested 1000003,
    ClientGetMessages (ChanNum 7) (ByOffset 100 3), Requested 1000005,
    ClientGetMessages (ChanNum 7) (ByOffset 8192 0), Requested 1000007,
    ClientGetMessages (ChanNum 7) (ByIds [1, 2, 3]), TaskStart 2,
    Requested 1000009, Sleep 500 500, ClientDownloadMedia 2 ''export/7/photo/2.jpg'',
    TaskSettle 2 True, RecordMessages [1, 2, 3], PersistCursor 3,
    Progress 1 0, Sleep 1000 500, Requested 1000013,
    ClientGetMessages (ChanNum 7) (ByOffset 8192 3), Progress 0 0]"

section \<open>Basic facts\<close>

lemma emit_fields [simp]:
  "trace (emit e w) = trace w @ [e]"
  "ticks (emit e w) = ticks w"
  "files (emit e w) = files w"
  "exportLog (emit e w) = exportLog w"
  "lastSelection (emit e w) = lastSelection w"
  "requestCount (emit e w) = requestCount w"
  "lastRequestTime (emit e w) = lastRequestTime w"
  "totalDownloaded (emit e w) = totalDownloaded w"
  "currentBatchDownloaded (emit e w) = currentBatchDownloaded w"
  "currentBatchSkipped (emit e w) = currentBatchSkipped w"
  "skippedFiles (emit e w) = skippedFiles w"
  "outputFolder (emit e w) = outputFolder w"
  "downloadableFiles (emit e w) = downloadableFiles w"
  by (simp_all add: emit_def)

lemma tick_fields [simp]:
  "trace (tick w) = trace w"
  "ticks (tick w) = Suc (ticks w)"
  "files (tick w) = files w"
  "exportLog (tick w) = exportLog w"
  "lastSelection (tick w) = lastSelection w"
  "requestCount (tick w) = requestCount w"
  "lastRequestTime (tick w) = lastRequestTime w"
  "totalDownloaded (tick w) = totalDownloaded w"
  "currentBatchDownloaded (tick w) = currentBatchDownloaded w"
  "currentBatchSkipped (tick w) = currentBatchSkipped w"
  "skippedFiles (tick w) = skippedFiles w"
  "outputFolder (tick w) = outputFolder w"
  "downloadableFiles (tick w) = downloadableFiles w"
  by (simp_all add: tick_def)

lemma wait_fields [simp]:
  "trace (wait E ms w) = trace w @ [Sleep ms (math_random E (ticks w) * 1000)]"
  "ticks (wait E ms w) = Suc (ticks w)"
  "files (wait E ms w) = files w"
  "exportLog (wait E ms w) = exportLog w"
  "lastSelection (wait E ms w) = lastSelection w"
  "requestCount (wait E ms w) = requestCount w"
  "lastRequestTime (wait E ms w) = lastRequestTime w"
  "totalDownloaded (wait E ms w) = totalDownloaded w"
  "currentBatchDownloaded (wait E ms w) = currentBatchDownloaded w"
  "currentBatchSkipped (wait E ms w) = currentBatchSkipped w"
  "skippedFiles (wait E ms w) = skippedFiles w"
  "outputFolder (wait E ms w) = outputFolder w"
  "downloadableFiles (wait E ms w) = downloadableFiles w"
  by (simp_all add: wait_def)

lemma downloadMessageMedia_resolves:
  "\<exists>b. fst (downloadMessageMedia E cl msg p w) = Inr b"
  by (auto simp: downloadMessageMedia_def split: option.splits prod.splits sum.splits)

lemma download_fn_resolves:
  "\<exists>b. fst (download_fn E cl msg w) = Inr b"
proof -
  let ?w1 = "wait E DOWNLOAD_DELAY w"
  let ?d = "downloadMessageMedia E cl (Some msg) (Some (getMediaPath E msg (outputFolder ?w1))) ?w1"
  obtain b where "fst ?d = Inr b"
    using downloadMessageMedia_resolves by blast
  then show ?thesis
    by (cases ?d) (simp add: download_fn_def Let_def)
qed

lemma task_run_resolves:
  "\<exists>b. fst (task_run E cl t w) = Inr (Some b)"
proof -
  let ?d = "download_fn E cl (task_msg t) (checkRateLimit_resume (task_gate t) w)"
  obtain b where "fst ?d = Inr b"
    using download_fn_resolves by blast
  then show ?thesis
    by (cases ?d) (simp add: task_run_def)
qed

lemma join_all_never_rejects: "fst (join_all E cl q w) = Inr ()"
proof (induction q arbitrary: w)
  case Nil
  show ?case by simp
next
  case (Cons t ts)
  obtain b where b: "fst (task_run E cl t w) = Inr (Some b)"
    using task_run_resolves by blast
  obtain r w1 where r: "task_run E cl t w = (r, w1)" by (cases "task_run E cl t w")
  obtain rs w2 where rs: "join_all E cl ts w1 = (rs, w2)" by (cases "join_all E cl ts w1")
  from Cons.IH [of w1] rs have "rs = Inr ()" by simp
  with b r rs show ?case by simp
qed

subsection \<open>The retry loop, unrolled\<close>

lemma backoffDelay_double: "0 \<le> i \<Longrightarrow> backoffDelay (i + 1) = 2 * backoffDelay i"
  by (simp add: backoffDelay_def nat_add_distrib)

lemma retry_loop_3:
  fixes fn :: "world \<Rightarrow> (error + 'a) \<times> world"
  shows "retry_loop E fn 3 0 w =
     (case fn (checkRateLimit E w) of
        (Inr v, w1) \<Rightarrow> (Inr (Some v), w1)
      | (Inl err0, w1) \<Rightarrow>
         (case fn (checkRateLimit E (wait E (backoffDelay 0) w1)) of
            (Inr v, w2) \<Rightarrow> (Inr (Some v), w2)
          | (Inl err1, w2) \<Rightarrow>
             (case fn (checkRateLimit E (wait E (backoffDelay 1) w2)) of
                (Inr v, w3) \<Rightarrow> (Inr (Some v), w3)
              | (Inl err2, w3) \<Rightarrow> (Inl err2, w3))))"
proof -
  have step2: "\<And>w. retry_loop E fn 3 2 w =
      (case fn (checkRateLimit E w) of
         (Inr v, w3) \<Rightarrow> (Inr (Some v), w3) | (Inl err2, w3) \<Rightarrow> (Inl err2, w3))"
    by (subst retry_loop.simps) (simp split: prod.splits sum.splits)
  have step1: "\<And>w. retry_loop E fn 3 1 w =
      (case fn (checkRateLimit E w) of
         (Inr v, w2) \<Rightarrow> (Inr (Some v), w2)
       | (Inl err1, w2) \<Rightarrow> retry_loop E fn 3 2 (wait E (backoffDelay 1) w2))"
    by (subst retry_loop.simps) (simp split: prod.splits sum.splits)
  have step0: "retry_loop E fn 3 0 w =
      (case fn (checkRateLimit E w) of
         (Inr v, w1) \<Rightarrow> (Inr (Some v), w1)
       | (Inl err0, w1) \<Rightarrow> retry_loop E fn 3 1 (wait E (backoffDelay 0) w1))"
    by (subst retry_loop.simps) (simp split: prod.splits sum.splits)
  show ?thesis
    unfolding step0 step1 step2 ..
qed

subsection \<open>Steps that only extend the trace\<close>

lemma ext_by_refl [simp]: "ext_by P w w"
  by (simp add: ext_by_def)

lemma ext_by_trans: "ext_by P w w1 \<Longrightarrow> ext_by P w1 w2 \<Longrightarrow> ext_by P w w2"
proof -
  assume a: "ext_by P w w1" and b: "ext_by P w1 w2"
  from a obtain e1 where e1: "trace w1 = trace w @ e1" "list_all P e1"
    unfolding ext_by_def by blast
  from b obtain e2 where e2: "trace w2 = trace w1 @ e2" "list_all P e2"
    unfolding ext_by_def by blast
  have "trace w2 = trace w @ (e1 @ e2)" "list_all P (e1 @ e2)"
    using e1 e2 by simp_all
  then have "\<exists>evs. trace w2 = trace w @ evs \<and> list_all P evs"
    by blast
  then show ?thesis
    using a b unfolding ext_by_def by simp
qed

lemma ext_by_mono: "ext_by P w w' \<Longrightarrow> (\<And>e. P e \<Longrightarrow> Q e) \<Longrightarrow> ext_by Q w w'"
  unfolding ext_by_def list_all_iff by blast

lemma ext_by_wait: "P (Sleep ms (math_random E (ticks w) * 1000)) \<Longrightarrow> ext_by P w (wait E ms w)"
  by (simp add: ext_by_def)

lemma ext_by_checkRateLimit: "(\<And>e. fetch_event e \<Longrightarrow> P e) \<Longrightarrow> ext_by P w (checkRateLimit E w)"
  by (simp add: ext_by_def checkRateLimit_def Let_def)

lemma ext_by_getMessages: "ext_by fetch_event w (snd (getMessages E cl ch limit off w))"
  by (simp add: ext_by_def getMessages_def Let_def split: sum.splits)

lemma ext_by_getMessageDetail: "ext_by fetch_event w (snd (getMessageDetail E cl ch ids w))"
  by (simp add: ext_by_def getMessageDetail_def Let_def split: sum.splits option.splits)

lemma ext_by_retry_loop:
  assumes "\<And>v. ext_by P v (snd (fn v))" and "\<And>e. fetch_event e \<Longrightarrow> P e"
  shows "ext_by P w (snd (retry_loop E fn retries i w))"
  using assms
proof (induction E fn retries i w rule: retry_loop.induct)
  case (1 E fn retries i w)
  note fn = "1.prems"(1) and P = "1.prems"(2)
  show ?case
  proof (cases "i < retries")
    case False
    then show ?thesis by (subst retry_loop.simps) simp
  next
    case True
    define r where "r = fst (fn (checkRateLimit E w))"
    define w2 where "w2 = snd (fn (checkRateLimit E w))"
    have f: "fn (checkRateLimit E w) = (r, w2)"
      by (simp add: r_def w2_def)
    have g: "ext_by P w (checkRateLimit E w)"
      by (rule ext_by_checkRateLimit) (rule P)
    have a: "ext_by P w w2"
      unfolding w2_def by (rule ext_by_trans [OF g fn])
    show ?thesis
    proof (cases r)
      case (Inr v)
      then show ?thesis using True f a by (subst retry_loop.simps) simp
    next
      case (Inl err)
      show ?thesis
      proof (cases "i = retries - 1")
        case True
        then show ?thesis using \<open>i < retries\<close> f a Inl by (subst retry_loop.simps) simp
      next
        case False
        have b: "ext_by P w2 (wait E (backoffDelay i) w2)"
          by (rule ext_by_wait) (simp add: P)
        have c: "ext_by P (wait E (backoffDelay i) w2)
                (snd (retry_loop E fn retries (i + 1) (wait E (backoffDelay i) w2)))"
          using "1.IH" [OF True f [symmetric] Inl False fn P] by simp
        have "ext_by P w (snd (retry_loop E fn retries (i + 1) (wait E (backoffDelay i) w2)))"
          by (rule ext_by_trans [OF a ext_by_trans [OF b c]])
        then show ?thesis
          using True f Inl False
          by (subst retry_loop.simps) simp
      qed
    qed
  qed
qed

lemma ext_by_retry_getMessages:
  "ext_by fetch_event w (snd (retryWithBackoff E (getMessages E cl ch limit off) retries w))"
  unfolding retryWithBackoff_def
  by (rule ext_by_retry_loop) (simp_all add: ext_by_getMessages)

lemma ext_by_retry_getMessageDetail:
  "ext_by fetch_event w (snd (retryWithBackoff E (getMessageDetail E cl ch ids) retries w))"
  unfolding retryWithBackoff_def
  by (rule ext_by_retry_loop) (simp_all add: ext_by_getMessageDetail)

lemma ext_by_count_loop:
  "count_loop n E cl ch off tc mc w = Some (r, w') \<Longrightarrow> ext_by fetch_event w w'"
proof (induction n arbitrary: off tc mc w)
  case 0
  then show ?case by simp
next
  case (Suc n)
  define res where "res = retryWithBackoff E (getMessages E cl ch 100 off) MAX_RETRIES w"
  have a: "ext_by fetch_event w (snd res)"
    unfolding res_def by (rule ext_by_retry_getMessages)
  show ?case
  proof (cases "fst res")
    case (Inl err)
    then have "w' = snd res" using Suc.prems
      by (cases res) (simp add: res_def [symmetric])
    then show ?thesis using a by simp
  next
    case (Inr v)
    show ?thesis
    proof (cases v)
      case None
      then have "w' = snd res" using Suc.prems Inr
        by (cases res) (simp add: res_def [symmetric])
      then show ?thesis using a by simp
    next
      case (Some messages)
      show ?thesis
      proof (cases "messages = []")
        case True
        then have "w' = snd res" using Suc.prems Inr Some
          by (cases res) (simp add: res_def [symmetric])
        then show ?thesis using a by simp
      next
        case False
        then have "count_loop n E cl ch (msg_id (last messages)) (tc + int (length messages))
                 (mc + int (length (filter hasMedia messages))) (wait E 1000 (snd res)) = Some (r, w')"
          using Suc.prems Inr Some
          by (cases res) (simp add: res_def [symmetric])
        from Suc.IH [OF this] have c: "ext_by fetch_event (wait E 1000 (snd res)) w'" .
        have b: "ext_by fetch_event (snd res) (wait E 1000 (snd res))"
          by (rule ext_by_wait) simp
        show ?thesis
          by (rule ext_by_trans [OF a ext_by_trans [OF b c]])
      qed
    qed
  qed
qed

lemma ext_by_fields:
  "ext_by P w (w\<lparr>totalMessages := a, totalMediaMessages := b\<rparr>)"
  by (simp add: ext_by_def)

lemma ext_by_countTotalMessages:
  assumes "countTotalMessages n E cl ch w = Some w'"
  shows "ext_by fetch_event w w'"
proof (cases "count_loop n E cl ch 0 0 0 w")
  case None
  then show ?thesis using assms by (simp add: countTotalMessages_def)
next
  case (Some p)
  obtain r w1 where p: "p = (r, w1)" by (cases p)
  have a: "ext_by fetch_event w w1"
    using ext_by_count_loop Some p by blast
  have "\<exists>a b. w' = w1\<lparr>totalMessages := a, totalMediaMessages := b\<rparr>"
    using assms Some p by (cases r) (auto simp: countTotalMessages_def)
  then show ?thesis
    using ext_by_trans [OF a ext_by_fields] by blast
qed

lemma downloadChannel_Suc:
  "downloadChannel (Suc n) E cl channelId offsetMsgId w =
     (case try_block n E cl channelId offsetMsgId w of
        None \<Rightarrow> None
      | Some (Inr u, w3) \<Rightarrow> Some (Inr u, w3)
      | Some (Inl err, w3) \<Rightarrow>
          if is_flood err
          then downloadChannel n E cl channelId offsetMsgId (wait_number E (flood_wait_time err) w3)
          else Some (Inl err, w3))"
  by (simp add: try_block_def)

declare downloadChannel.simps(2) [simp del]

subsection \<open>Counting tasks in a trace\<close>

lemma starts_simps [simp]:
  "starts [] = 0"
  "starts (e # es) = (if is_start e then Suc (starts es) else starts es)"
  "starts (a @ b) = starts a + starts b"
  by (simp_all add: starts_def)

lemma settles_simps [simp]:
  "settles [] = 0"
  "settles (e # es) = (if is_settle e then Suc (settles es) else settles es)"
  "settles (a @ b) = settles a + settles b"
  by (simp_all add: settles_def)

lemma background_not_task: "background e \<Longrightarrow> \<not> is_start e \<and> \<not> is_settle e"
  by (cases e) simp_all

lemma fetch_event_background: "fetch_event e \<Longrightarrow> background e"
  by (cases e) simp_all

lemma background_stage: "background e \<Longrightarrow> stage_event e"
  by (simp add: stage_event_def)

lemma starts_background [simp]: "list_all background evs \<Longrightarrow> starts evs = 0"
  by (induction evs) (auto dest: background_not_task)

lemma settles_background [simp]: "list_all background evs \<Longrightarrow> settles evs = 0"
  by (induction evs) (auto dest: background_not_task)

lemma lastev_simps [simp]:
  "lastev prev [] = prev"
  "lastev prev (a @ [e]) = Some e"
  "lastev prev (e # es) = lastev (Some e) es"
  by (simp_all add: lastev_def)

lemma lastev_append [simp]: "lastev prev (a @ b) = lastev (lastev prev a) b"
  by (simp add: lastev_def)

lemma sched_ok_append:
  "sched_ok s t prev (a @ b) \<longleftrightarrow>
     sched_ok s t prev a \<and> sched_ok (s + starts a) (t + settles a) (lastev prev a) b"
  by (induction a arbitrary: s t prev) auto

lemma sched_ok_no_start:
  "starts evs = 0 \<Longrightarrow> t + settles evs \<le> s \<Longrightarrow> sched_ok s t prev evs"
  by (induction evs arbitrary: t prev) (auto split: if_splits)

lemma sched_ok_background: "list_all background evs \<Longrightarrow> sched_ok s t prev evs"
  by (induction evs arbitrary: prev) (auto dest: background_not_task)

lemma sched_ok_bound:
  "sched_ok s t prev evs \<Longrightarrow> s \<le> t + MAX_PARALLEL_DOWNLOAD \<Longrightarrow>
     s + starts (take k evs) \<le> t + settles (take k evs) + MAX_PARALLEL_DOWNLOAD"
proof (induction evs arbitrary: s t prev k)
  case Nil
  then show ?case by simp
next
  case (Cons e es)
  show ?case
  proof (cases k)
    case 0
    then show ?thesis using Cons.prems by simp
  next
    case (Suc k')
    have ok: "sched_ok (if is_start e then Suc s else s) (if is_settle e then Suc t else t) (Some e) es"
      using Cons.prems(1) by simp
    have le: "(if is_start e then Suc s else s) \<le> (if is_settle e then Suc t else t) + MAX_PARALLEL_DOWNLOAD"
      using Cons.prems by (cases e) (auto split: if_splits)
    from Cons.IH [OF ok le, of k'] show ?thesis
      using Suc by (cases e) (auto split: if_splits)
  qed
qed

lemma sched_ok_at_start:
  "sched_ok s t prev evs \<Longrightarrow> k < length evs \<Longrightarrow> is_start (evs ! k) \<Longrightarrow>
     t + settles (take k evs) =
       MAX_PARALLEL_DOWNLOAD * ((s + starts (take k evs)) div MAX_PARALLEL_DOWNLOAD) \<and>
     (0 < s + starts (take k evs) \<and> (s + starts (take k evs)) mod MAX_PARALLEL_DOWNLOAD = 0 \<longrightarrow>
        (\<exists>j. lastev prev (take k evs) = Some (Sleep RATE_LIMIT_DELAY j)))"
proof (induction evs arbitrary: s t prev k)
  case Nil
  then show ?case by simp
next
  case (Cons e es)
  show ?case
  proof (cases k)
    case 0
    then show ?thesis using Cons.prems by (auto split: if_splits)
  next
    case (Suc k')
    have ok: "sched_ok (if is_start e then Suc s else s) (if is_settle e then Suc t else t) (Some e) es"
      using Cons.prems(1) by simp
    have "k' < length es" "is_start (es ! k')"
      using Cons.prems Suc by simp_all
    from Cons.IH [OF ok this] show ?thesis
      using Suc by (cases "is_start e"; cases "is_settle e") simp_all
  qed
qed

subsection \<open>Download tasks\<close>

lemma stage_step_trans:
  "stage_step j a w w1 \<Longrightarrow> stage_step k b w1 w2 \<Longrightarrow> stage_step (j + k) (a @ b) w w2"
  by (simp add: stage_step_def)

lemma ext_by_stage_step:
  assumes "ext_by background w w'"
  shows "\<exists>evs. stage_step 0 evs w w' \<and> list_all background evs"
proof -
  from assms obtain evs where "trace w' = trace w @ evs" "list_all background evs"
    unfolding ext_by_def by blast
  moreover have "list_all stage_event evs"
    using \<open>list_all background evs\<close> unfolding list_all_iff by (simp add: background_stage)
  ultimately show ?thesis
    using assms unfolding ext_by_def stage_step_def by auto
qed

lemma ext_by_writeFileSync: "ext_by background w (snd (writeFileSync E p content w))"
  by (simp add: ext_by_def writeFileSync_def split: option.splits)

lemma ext_by_downloadMedia: "ext_by background w (snd (downloadMedia E m p w))"
  by (simp add: ext_by_def downloadMedia_def Let_def split: option.splits)

lemma ext_by_download_try: "ext_by background w (snd (download_try E m p w))"
proof (cases "msg_media m")
  case None
  then show ?thesis by (simp add: download_try_def)
next
  case (Some md)
  define r1 where "r1 = (case md_webpage md of
                  None \<Rightarrow> (Inr (), p, w)
                | Some wp \<Rightarrow>
                   (let (r, w') =
                          (case wp_url wp of
                             None \<Rightarrow> (Inr (), w)
                           | Some url \<Rightarrow>
                               if url = [] then (Inr (), w)
                               else writeFileSync E
                                      (path_join E p (''../'' @ id_str E (msg_id m) @ ''_url.txt''))
                                      url w)
                    in (r, path_join E p (''../'' @ wp_id wp @ ''_image.jpeg''), w')))"
  obtain a p1 w1 where r1: "r1 = (a, p1, w1)" by (cases r1)
  have e1: "ext_by background w w1"
  proof (cases "md_webpage md")
    case None
    then show ?thesis using r1 by (simp add: r1_def)
  next
    case (Some wp)
    show ?thesis
    proof (cases "wp_url wp")
      case None
      then show ?thesis using r1 Some by (simp add: r1_def)
    next
      case (Some url)
      show ?thesis
      proof (cases "url = []")
        case True
        then show ?thesis using r1 \<open>md_webpage md = Some wp\<close> Some by (simp add: r1_def)
      next
        case False
        let ?q = "path_join E p (''../'' @ id_str E (msg_id m) @ ''_url.txt'')"
        have "w1 = snd (writeFileSync E ?q url w)"
          using r1 \<open>md_webpage md = Some wp\<close> Some False
          by (cases "writeFileSync E ?q url w") (simp add: r1_def)
        then show ?thesis using ext_by_writeFileSync by simp
      qed
    qed
  qed
  show ?thesis
  proof (cases a)
    case (Inl err)
    then have "snd (download_try E m p w) = w1"
      using \<open>msg_media m = Some md\<close> r1 by (simp add: download_try_def r1_def [symmetric])
    then show ?thesis using e1 by simp
  next
    case (Inr u)
    define r2 where "r2 = (case md_poll md of
                          None \<Rightarrow> (Inr (), w1)
                        | Some pl \<Rightarrow> writeFileSync E
                                      (path_join E p1 (''../'' @ id_str E (msg_id m) @ ''_poll.json''))
                                      (circularStringify E pl) w1)"
    obtain b w2 where r2: "r2 = (b, w2)" by (cases r2)
    have e2: "ext_by background w1 w2"
    proof (cases "md_poll md")
      case None
      then show ?thesis using r2 by (simp add: r2_def)
    next
      case (Some pl)
      then have "w2 = snd (writeFileSync E (path_join E p1 (''../'' @ id_str E (msg_id m) @ ''_poll.json''))
                             (circularStringify E pl) w1)"
        using r2 by (simp add: r2_def)
      then show ?thesis using ext_by_writeFileSync by simp
    qed
    show ?thesis
    proof (cases b)
      case (Inl err)
      then have "snd (download_try E m p w) = w2"
        using \<open>msg_media m = Some md\<close> r1 r2 \<open>a = Inr u\<close>
        by (simp add: download_try_def r1_def [symmetric] r2_def [symmetric])
      then show ?thesis using ext_by_trans [OF e1 e2] by simp
    next
      case (Inr u2)
      then have "snd (download_try E m p w) = snd (downloadMedia E m p1 w2)"
        using \<open>msg_media m = Some md\<close> r1 r2 \<open>a = Inr u\<close>
        by (cases "downloadMedia E m p1 w2"; cases "fst (downloadMedia E m p1 w2)")
           (simp_all add: download_try_def r1_def [symmetric] r2_def [symmetric])
      then show ?thesis
        using ext_by_trans [OF ext_by_trans [OF e1 e2] ext_by_downloadMedia [of w2 E m p1]] by simp
    qed
  qed
qed

lemma ext_by_downloadMessageMedia: "ext_by background w (snd (downloadMessageMedia E cl msg p w))"
proof (cases cl)
  case None
  then show ?thesis by (simp add: downloadMessageMedia_def)
next
  case (Some c)
  note c = this
  show ?thesis
  proof (cases msg)
    case None
    then show ?thesis using c by (simp add: downloadMessageMedia_def)
  next
    case (Some m)
    note m = this
    show ?thesis
    proof (cases p)
      case None
      then show ?thesis using c m by (simp add: downloadMessageMedia_def)
    next
      case (Some path)
      have "snd (downloadMessageMedia E cl msg p w) = (if path = [] then w else snd (download_try E m path w))"
        using c m Some
        by (cases "download_try E m path w"; cases "fst (download_try E m path w)")
           (simp_all add: downloadMessageMedia_def)
      then show ?thesis using ext_by_download_try [of w E m path] by simp
    qed
  qed
qed

lemma download_fn_step:
  "\<exists>b evs. fst (download_fn E cl msg w) = Inr b \<and>
            stage_step 1 evs w (snd (download_fn E cl msg w)) \<and> list_all background evs"
proof -
  let ?w1 = "wait E DOWNLOAD_DELAY w"
  let ?d = "downloadMessageMedia E cl (Some msg) (Some (getMediaPath E msg (outputFolder ?w1))) ?w1"
  obtain b where b: "fst ?d = Inr b"
    using downloadMessageMedia_resolves by blast
  have "ext_by background w ?w1"
    by (rule ext_by_wait) simp
  then have "ext_by background w (snd ?d)"
    using ext_by_trans ext_by_downloadMessageMedia by blast
  then obtain evs where evs: "stage_step 0 evs w (snd ?d)" "list_all background evs"
    using ext_by_stage_step by blast
  have r: "download_fn E cl msg w =
        (Inr b, (snd ?d)\<lparr>totalDownloaded := totalDownloaded (snd ?d) + 1,
                          currentBatchDownloaded := currentBatchDownloaded (snd ?d) + 1\<rparr>)"
    using b by (cases ?d) (simp add: download_fn_def Let_def)
  have "stage_step 1 evs w (snd (download_fn E cl msg w))"
    using evs(1) unfolding r by (simp add: stage_step_def)
  then show ?thesis using r evs(2) by auto
qed

lemma ext_by_checkRateLimit_begin: "ext_by fetch_event w (snd (checkRateLimit_begin E w))"
  by (simp add: ext_by_def checkRateLimit_begin_def Let_def)

lemma ext_by_checkRateLimit_resume: "ext_by fetch_event w (checkRateLimit_resume g w)"
  by (cases g) (simp_all add: ext_by_def checkRateLimit_resume_def Let_def)

lemma task_start_step:
  "\<exists>g evs. task_start E msg w = (Task msg g, snd (task_start E msg w)) \<and>
            stage_step 0 (TaskStart (msg_id msg) # evs) w (snd (task_start E msg w)) \<and>
            list_all background evs"
proof -
  let ?w0 = "emit (TaskStart (msg_id msg)) w"
  obtain g w1 where c: "checkRateLimit_begin E ?w0 = (g, w1)"
    by (cases "checkRateLimit_begin E ?w0")
  have "ext_by background ?w0 (snd (checkRateLimit_begin E ?w0))"
    by (rule ext_by_mono [OF ext_by_checkRateLimit_begin]) (rule fetch_event_background)
  then have "ext_by background ?w0 w1"
    using c by simp
  then obtain evs where evs: "stage_step 0 evs ?w0 w1" "list_all background evs"
    using ext_by_stage_step by blast
  have "stage_step 0 (TaskStart (msg_id msg) # evs) w w1"
    using evs(1) by (simp add: stage_step_def stage_event_def)
  then show ?thesis using c evs(2) by (auto simp: task_start_def)
qed

lemma task_run_step:
  "\<exists>b evs. fst (task_run E cl t w) = Inr (Some b) \<and>
            stage_step 1 (evs @ [TaskSettle (msg_id (task_msg t)) b]) w (snd (task_run E cl t w)) \<and>
            list_all background evs"
proof -
  let ?w0 = "checkRateLimit_resume (task_gate t) w"
  let ?d = "download_fn E cl (task_msg t) ?w0"
  have "ext_by background w ?w0"
    by (rule ext_by_mono [OF ext_by_checkRateLimit_resume]) (rule fetch_event_background)
  then obtain e0 where e0: "stage_step 0 e0 w ?w0" "list_all background e0"
    using ext_by_stage_step by blast
  obtain b e1 where d: "fst ?d = Inr b" "stage_step 1 e1 ?w0 (snd ?d)" "list_all background e1"
    using download_fn_step by blast
  have r: "task_run E cl t w =
             (Inr (Some b), emit (TaskSettle (msg_id (task_msg t)) (b = True)) (snd ?d))"
    using d(1) by (cases ?d) (simp add: task_run_def)
  have "stage_step 1 (e0 @ e1) w (snd ?d)"
    using stage_step_trans [OF e0(1) d(2)] by simp
  then have "stage_step 1 ((e0 @ e1) @ [TaskSettle (msg_id (task_msg t)) b]) w (snd (task_run E cl t w))"
    unfolding r by (simp add: stage_step_def stage_event_def)
  moreover have "list_all background (e0 @ e1)"
    using e0(2) d(3) by simp
  ultimately show ?thesis using r by (metis fst_conv)
qed

subsection \<open>The download loop\<close>

lemma join_all_step:
  "\<exists>evs. fst (join_all E cl q w) = Inr () \<and>
         stage_step (length q) evs w (snd (join_all E cl q w)) \<and>
         starts evs = 0 \<and> settles evs = length q"
proof (induction q arbitrary: w)
  case Nil
  have "stage_step 0 [] w w" by (simp add: stage_step_def)
  then show ?case by auto
next
  case (Cons t ts)
  obtain r w1 where r: "task_run E cl t w = (r, w1)" by (cases "task_run E cl t w")
  obtain b e1 where t1: "r = Inr (Some b)"
      "stage_step 1 (e1 @ [TaskSettle (msg_id (task_msg t)) b]) w w1" "list_all background e1"
    using task_run_step [of E cl t w] r by auto
  obtain e2 where t2: "fst (join_all E cl ts w1) = Inr ()"
      "stage_step (length ts) e2 w1 (snd (join_all E cl ts w1))" "starts e2 = 0" "settles e2 = length ts"
    using Cons.IH [of w1] by blast
  have j: "join_all E cl (t # ts) w = (Inr (), snd (join_all E cl ts w1))"
    using r t1(1) t2(1) by (cases "join_all E cl ts w1") simp
  let ?evs = "(e1 @ [TaskSettle (msg_id (task_msg t)) b]) @ e2"
  have "stage_step (length (t # ts)) ?evs w (snd (join_all E cl (t # ts) w))"
    using stage_step_trans [OF t1(2) t2(2)] j by simp
  moreover have "starts ?evs = 0" "settles ?evs = length (t # ts)"
    using t1(3) t2(3,4) by simp_all
  ultimately show ?case using j by (metis fst_conv)
qed

lemma task_start_cases:
  obtains g w1 evs where "task_start E msg w = (Task msg g, w1)"
    and "stage_step 0 (TaskStart (msg_id msg) # evs) w w1" and "list_all background evs"
  using task_start_step [of E msg w] by (cases "task_start E msg w") auto

lemma download_loop_step:
  assumes "length q < MAX_PARALLEL_DOWNLOAD" and "s = t + length q"
    and "MAX_PARALLEL_DOWNLOAD dvd t"
    and "q = [] \<and> 0 < s \<longrightarrow> (\<exists>j. prev = Some (Sleep RATE_LIMIT_DELAY j))"
  shows "\<exists>q' evs. fst (download_loop E cl msgs q w) = Inr q' \<and>
           stage_step (settles evs) evs w (snd (download_loop E cl msgs q w)) \<and>
           sched_ok s t prev evs \<and> length q' < MAX_PARALLEL_DOWNLOAD \<and>
           s + starts evs = t + settles evs + length q' \<and>
           MAX_PARALLEL_DOWNLOAD dvd (t + settles evs)"
  using assms
proof (induction msgs arbitrary: q w s t prev)
  case Nil
  have "stage_step (settles []) [] w w" by (simp add: stage_step_def)
  then show ?case using Nil.prems by (intro exI [of _ q] exI [of _ "[]"]) simp
next
  case (Cons msg rest)
  show ?case
  proof (cases "truthy (canDownload E msg w)")
    case False
    define w1 where "w1 = (if hasMedia msg
        then w\<lparr>skippedFiles := skippedFiles w + 1, currentBatchSkipped := currentBatchSkipped w + 1\<rparr>
        else w)"
    have eq: "download_loop E cl (msg # rest) q w = download_loop E cl rest q w1"
      using False Cons.prems(1) by (simp add: w1_def)
    have tr: "trace w1 = trace w" "totalDownloaded w1 = totalDownloaded w"
      "currentBatchDownloaded w1 = currentBatchDownloaded w" "exportLog w1 = exportLog w"
      "lastSelection w1 = lastSelection w" "outputFolder w1 = outputFolder w"
      "downloadableFiles w1 = downloadableFiles w"
      by (simp_all add: w1_def)
    obtain q' evs where ih: "fst (download_loop E cl rest q w1) = Inr q'"
        "stage_step (settles evs) evs w1 (snd (download_loop E cl rest q w1))"
        "sched_ok s t prev evs" "length q' < MAX_PARALLEL_DOWNLOAD"
        "s + starts evs = t + settles evs + length q'" "MAX_PARALLEL_DOWNLOAD dvd (t + settles evs)"
      using Cons.IH [OF Cons.prems, of w1] by blast
    have "stage_step (settles evs) evs w (snd (download_loop E cl rest q w1))"
      using ih(2) tr by (simp add: stage_step_def)
    then show ?thesis using ih unfolding eq by blast
  next
    case True
    obtain g w1 e0 where ts: "task_start E msg w = (Task msg g, w1)"
        "stage_step 0 (TaskStart (msg_id msg) # e0) w w1"
        "list_all background e0"
      by (rule task_start_cases)
    define q1 where "q1 = q @ [Task msg g]"
    let ?e1 = "TaskStart (msg_id msg) # e0"
    have lq: "length q < 12" "12 dvd t"
      using Cons.prems by (simp_all add: MAX_PARALLEL_DOWNLOAD_def)
    have sdiv: "t = 12 * (s div 12)" "s mod 12 = length q"
      using lq Cons.prems(2) by auto
    have ok1: "sched_ok s t prev ?e1"
      using Cons.prems lq sdiv ts(3)
      by (auto simp: MAX_PARALLEL_DOWNLOAD_def sched_ok_background)
    have st1: "starts ?e1 = 1" "settles ?e1 = 0"
      using ts(3) by simp_all
    show ?thesis
    proof (cases "length q1 \<ge> MAX_PARALLEL_DOWNLOAD")
      case False
      have eq: "download_loop E cl (msg # rest) q w = download_loop E cl rest q1 w1"
        using True ts(1) False by (simp add: q1_def)
      have p1: "length q1 < MAX_PARALLEL_DOWNLOAD" using False by simp
      have p2: "Suc s = t + length q1" using Cons.prems(2) by (simp add: q1_def)
      have p4: "q1 = [] \<and> 0 < Suc s \<longrightarrow> (\<exists>j. lastev prev ?e1 = Some (Sleep RATE_LIMIT_DELAY j))"
        by (simp add: q1_def)
      obtain q' evs where ih: "fst (download_loop E cl rest q1 w1) = Inr q'"
          "stage_step (settles evs) evs w1 (snd (download_loop E cl rest q1 w1))"
          "sched_ok (Suc s) t (lastev prev ?e1) evs" "length q' < MAX_PARALLEL_DOWNLOAD"
          "Suc s + starts evs = t + settles evs + length q'" "MAX_PARALLEL_DOWNLOAD dvd (t + settles evs)"
        using Cons.IH [OF p1 p2 Cons.prems(3) p4, of w1] by blast
      let ?evs = "?e1 @ evs"
      have a: "stage_step (settles ?evs) ?evs w (snd (download_loop E cl rest q1 w1))"
        using stage_step_trans [OF ts(2) ih(2)] st1 by simp
      have b: "sched_ok s t prev ?evs"
        using ok1 ih(3) st1 by (simp only: sched_ok_append) simp
      have c: "s + starts ?evs = t + settles ?evs + length q'"
        using ih(5) st1 by simp
      have d: "MAX_PARALLEL_DOWNLOAD dvd (t + settles ?evs)"
        using ih(6) st1 by simp
      show ?thesis
        unfolding eq using ih(1) a b ih(4) c d by blast
    next
      case full: True
      obtain e2 where j: "fst (join_all E cl q1 w1) = Inr ()"
          "stage_step (length q1) e2 w1 (snd (join_all E cl q1 w1))" "starts e2 = 0" "settles e2 = length q1"
        using join_all_step by blast
      define w2 where "w2 = snd (join_all E cl q1 w1)"
      define w3 where "w3 = wait E RATE_LIMIT_DELAY w2"
      let ?sl = "Sleep RATE_LIMIT_DELAY (math_random E (ticks w2) * 1000)"
      have eq: "download_loop E cl (msg # rest) q w = download_loop E cl rest [] w3"
        using True ts(1) full j(1)
        by (cases "join_all E cl q1 w1") (simp add: q1_def w2_def w3_def)
      have l12: "length q1 = 12"
        using full lq by (simp add: q1_def MAX_PARALLEL_DOWNLOAD_def)
      have sl: "stage_step 0 [?sl] w2 w3"
        by (simp add: w3_def stage_step_def stage_event_def)
      have p2: "Suc s = (t + 12) + length ([] :: task list)"
        using Cons.prems(2) l12 by (simp add: q1_def)
      have p3: "MAX_PARALLEL_DOWNLOAD dvd (t + 12)"
        using lq by (simp add: MAX_PARALLEL_DOWNLOAD_def)
      have p4: "([] :: task list) = [] \<and> 0 < Suc s \<longrightarrow> (\<exists>j. Some ?sl = Some (Sleep RATE_LIMIT_DELAY j))"
        by simp
      have p1: "length ([] :: task list) < MAX_PARALLEL_DOWNLOAD"
        by (simp add: MAX_PARALLEL_DOWNLOAD_def)
      obtain q' evs where ih: "fst (download_loop E cl rest [] w3) = Inr q'"
          "stage_step (settles evs) evs w3 (snd (download_loop E cl rest [] w3))"
          "sched_ok (Suc s) (t + 12) (Some ?sl) evs" "length q' < MAX_PARALLEL_DOWNLOAD"
          "Suc s + starts evs = (t + 12) + settles evs + length q'"
          "MAX_PARALLEL_DOWNLOAD dvd ((t + 12) + settles evs)"
        using Cons.IH [OF p1 p2 p3 p4, of w3] by blast
      let ?pre = "?e1 @ e2 @ [?sl]"
      let ?evs = "?pre @ evs"
      have stp: "starts ?pre = 1" "settles ?pre = 12"
        using st1 j(3,4) l12 by simp_all
      have pre: "stage_step 12 ?pre w w3"
        using stage_step_trans [OF ts(2)
                stage_step_trans [OF j(2) [folded w2_def] sl]] l12 by simp
      have se: "settles ?evs = 12 + settles evs"
        using stp by simp
      have a: "stage_step (settles ?evs) ?evs w (snd (download_loop E cl rest [] w3))"
        unfolding se by (rule stage_step_trans [OF pre ih(2)])
      have okj: "sched_ok (Suc s) t (lastev prev ?e1) e2"
        by (rule sched_ok_no_start) (use j(3,4) l12 Cons.prems(2) in \<open>simp_all add: q1_def\<close>)
      have okpre: "sched_ok s t prev ?pre"
        using ok1 okj st1 j(3,4) by (simp only: sched_ok_append) simp
      have le: "lastev prev ?pre = Some ?sl"
        by simp
      have b: "sched_ok s t prev ?evs"
        using okpre ih(3) stp le by (simp only: sched_ok_append) simp
      have ss: "starts ?evs = 1 + starts evs"
        using stp by simp
      have c: "s + starts ?evs = t + settles ?evs + length q'"
        unfolding se ss using ih(5) by simp
      have d: "MAX_PARALLEL_DOWNLOAD dvd (t + settles ?evs)"
        unfolding se using ih(6) by (simp add: add.assoc)
      show ?thesis
        unfolding eq using ih(1) a b ih(4) c d by blast
    qed
  qed
qed

lemma download_stage_step:
  "\<exists>evs. fst (download_stage E cl details w) = Inr () \<and>
         trace (snd (download_stage E cl details w)) = trace w @ evs \<and>
         list_all stage_event evs \<and> sched_ok 0 0 None evs \<and> starts evs = settles evs \<and>
         totalDownloaded (snd (download_stage E cl details w)) = totalDownloaded w + int (starts evs) \<and>
         currentBatchDownloaded (snd (download_stage E cl details w)) = int (starts evs) \<and>
         exportLog (snd (download_stage E cl details w)) = exportLog w \<and>
         lastSelection (snd (download_stage E cl details w)) = lastSelection w \<and>
         outputFolder (snd (download_stage E cl details w)) = outputFolder w"
proof -
  let ?w0 = "w\<lparr>currentBatchDownloaded := 0, currentBatchSkipped := 0\<rparr>"
  have p1: "length ([] :: task list) < MAX_PARALLEL_DOWNLOAD"
    by (simp add: MAX_PARALLEL_DOWNLOAD_def)
  have p2: "(0::nat) = 0 + length ([] :: task list)" by simp
  have p3: "MAX_PARALLEL_DOWNLOAD dvd (0::nat)" by simp
  have p4: "([] :: task list) = [] \<and> 0 < (0::nat) \<longrightarrow> (\<exists>j. None = Some (Sleep RATE_LIMIT_DELAY j))"
    by simp
  obtain q e1 where l: "fst (download_loop E cl details [] ?w0) = Inr q"
      "stage_step (settles e1) e1 ?w0 (snd (download_loop E cl details [] ?w0))"
      "sched_ok 0 0 None e1" "length q < MAX_PARALLEL_DOWNLOAD"
      "0 + starts e1 = 0 + settles e1 + length q"
    using download_loop_step [OF p1 p2 p3 p4, of E cl details ?w0] by blast
  define w1 where "w1 = snd (download_loop E cl details [] ?w0)"
  have lw: "download_loop E cl details [] ?w0 = (Inr q, w1)"
    using l(1) by (cases "download_loop E cl details [] ?w0") (simp add: w1_def)
  obtain e2 where j: "fst (join_all E cl q w1) = Inr ()"
      "stage_step (length q) e2 w1 (snd (join_all E cl q w1))" "starts e2 = 0" "settles e2 = length q"
    using join_all_step by blast
  define w2 where "w2 = snd (join_all E cl q w1)"
  have jw: "join_all E cl q w1 = (Inr (), w2)"
    using j(1) by (cases "join_all E cl q w1") (simp add: w2_def)
  have res: "download_stage E cl details w = (Inr (), w2)"
  proof (cases "q = []")
    case True
    then have "w2 = w1" by (simp add: w2_def)
    then show ?thesis using True lw by (simp add: download_stage_def)
  next
    case False
    then show ?thesis using lw jw by (simp add: download_stage_def)
  qed
  let ?evs = "e1 @ e2"
  have st: "stage_step (settles e1 + length q) ?evs ?w0 w2"
    using stage_step_trans [OF l(2) [folded w1_def] j(2) [folded w2_def]] .
  have bal: "starts ?evs = settles ?evs" "starts ?evs = settles e1 + length q"
    using l(5) j(3,4) by simp_all
  have ok2: "sched_ok (0 + starts e1) (0 + settles e1) (lastev None e1) e2"
    by (rule sched_ok_no_start) (use j(3,4) l(5) in simp_all)
  have ok: "sched_ok 0 0 None ?evs"
    using l(3) ok2 by (simp only: sched_ok_append add_0)
  have f: "trace w2 = trace w @ ?evs" "list_all stage_event ?evs"
      "totalDownloaded w2 = totalDownloaded w + int (starts ?evs)"
      "currentBatchDownloaded w2 = int (starts ?evs)"
      "exportLog w2 = exportLog w" "lastSelection w2 = lastSelection w"
      "outputFolder w2 = outputFolder w"
    using st unfolding bal(2) by (simp_all add: stage_step_def)
  show ?thesis
    unfolding res using f ok bal(1) by (intro exI [of _ ?evs]) simp
qed

subsection \<open>One page\<close>

lemma recordMessages_fields [simp]:
  "trace (recordMessages E ms w) = trace w @ [RecordMessages (map msg_id ms)]"
  "map le_id (drop (length (exportLog w)) (exportLog (recordMessages E ms w))) = map msg_id ms"
  "take (length (exportLog w)) (exportLog (recordMessages E ms w)) = exportLog w"
  "lastSelection (recordMessages E ms w) = lastSelection w"
  "totalDownloaded (recordMessages E ms w) = totalDownloaded w"
  "currentBatchDownloaded (recordMessages E ms w) = currentBatchDownloaded w"
  "currentBatchSkipped (recordMessages E ms w) = currentBatchSkipped w"
  "ticks (recordMessages E ms w) = ticks w"
  by (simp_all add: recordMessages_def appendToJSONArrayFile_def Let_def comp_def)

lemma updateLastSelection_fields [simp]:
  "trace (updateLastSelection c w) = trace w @ [PersistCursor c]"
  "exportLog (updateLastSelection c w) = exportLog w"
  "lastSelection (updateLastSelection c w) = (lastSelection w)\<lparr>sel_messageOffsetId := c\<rparr>"
  "totalDownloaded (updateLastSelection c w) = totalDownloaded w"
  "currentBatchDownloaded (updateLastSelection c w) = currentBatchDownloaded w"
  "currentBatchSkipped (updateLastSelection c w) = currentBatchSkipped w"
  "ticks (updateLastSelection c w) = ticks w"
  by (simp_all add: updateLastSelection_def)

lemma showProgress_fields [simp]:
  "trace (showProgress a b w) = trace w @ [Progress a b]"
  "exportLog (showProgress a b w) = exportLog w"
  "lastSelection (showProgress a b w) = lastSelection w"
  "totalDownloaded (showProgress a b w) = totalDownloaded w"
  "ticks (showProgress a b w) = ticks w"
  by (simp_all add: showProgress_def)

lemma process_page_success:
  assumes "process_page E cl ch off w = (Inr (Some c), w')"
  obtains messages w1 details w2 w3 where
    "retryWithBackoff E (getMessages E cl ch MESSAGE_LIMIT off) MAX_RETRIES w = (Inr (Some messages), w1)"
    "messages \<noteq> []"
    "retryWithBackoff E (getMessageDetail E cl ch (Some (map msg_id messages))) MAX_RETRIES w1 =
       (Inr (Some details), w2)"
    "download_stage E cl details w2 = (Inr (), w3)"
    "c = msg_id (last messages)"
    "w' = wait E RATE_LIMIT_DELAY
            (showProgress (currentBatchDownloaded w3) (currentBatchSkipped w3)
               (updateLastSelection c (recordMessages E details w3)))"
proof -
  obtain r1 w1 where f1: "retryWithBackoff E (getMessages E cl ch MESSAGE_LIMIT off) MAX_RETRIES w = (r1, w1)"
    by (cases "retryWithBackoff E (getMessages E cl ch MESSAGE_LIMIT off) MAX_RETRIES w")
  from assms f1 obtain messages where m: "r1 = Inr (Some messages)"
    by (cases r1; cases "projr r1") (auto simp: process_page_def)
  have ne: "messages \<noteq> []"
    using assms f1 m by (auto simp: process_page_def)
  obtain r2 w2 where f2: "retryWithBackoff E (getMessageDetail E cl ch (Some (map msg_id messages))) MAX_RETRIES w1 = (r2, w2)"
    by (cases "retryWithBackoff E (getMessageDetail E cl ch (Some (map msg_id messages))) MAX_RETRIES w1")
  from assms f1 m ne f2 obtain details where d: "r2 = Inr (Some details)"
    by (cases r2; cases "projr r2") (auto simp: process_page_def)
  obtain r3 w3 where f3: "download_stage E cl details w2 = (r3, w3)"
    by (cases "download_stage E cl details w2")
  have r3: "r3 = Inr ()"
    using download_stage_step [of E cl details w2] f3 by auto
  have "c = msg_id (last messages)"
    "w' = wait E RATE_LIMIT_DELAY
            (showProgress (currentBatchDownloaded w3) (currentBatchSkipped w3)
               (updateLastSelection c (recordMessages E details w3)))"
    using assms f1 m ne f2 d f3 r3
    by (auto simp: process_page_def Let_def)
  then show ?thesis
    using that f1 m ne f2 d f3 r3 by blast
qed

lemma sched_ok_first_prev: "sched_ok 0 t prev evs = sched_ok 0 t prev' evs"
  by (cases evs) simp_all

lemma list_all_background_stage: "list_all background evs \<Longrightarrow> list_all stage_event evs"
  unfolding list_all_iff by (simp add: background_stage)

lemma list_all_fetch_background: "list_all fetch_event evs \<Longrightarrow> list_all background evs"
  unfolding list_all_iff by (simp add: fetch_event_background)

lemma ext_by_fetch_events:
  assumes "ext_by fetch_event w w'"
  obtains evs where "trace w' = trace w @ evs" "list_all background evs"
    "exportLog w' = exportLog w" "lastSelection w' = lastSelection w"
    "totalDownloaded w' = totalDownloaded w"
  using assms list_all_fetch_background unfolding ext_by_def by blast

lemma process_page_structure:
  assumes "process_page E cl ch off w = (Inr (Some c), w')"
  shows "\<exists>messages (details :: message list) pre bs j.
     fst (retryWithBackoff E (getMessages E cl ch MESSAGE_LIMIT off) MAX_RETRIES w) = Inr (Some messages) \<and>
     messages \<noteq> [] \<and> c = msg_id (last messages) \<and>
     trace w' = trace w @ pre @ [RecordMessages (map msg_id details), PersistCursor c,
                                 Progress (int (starts pre)) bs, Sleep RATE_LIMIT_DELAY j] \<and>
     list_all stage_event pre \<and> sched_ok 0 0 None pre \<and> starts pre = settles pre \<and>
     totalDownloaded w' = totalDownloaded w + int (starts pre) \<and>
     lastSelection w' = (lastSelection w)\<lparr>sel_messageOffsetId := c\<rparr> \<and>
     take (length (exportLog w)) (exportLog w') = exportLog w \<and>
     map le_id (drop (length (exportLog w)) (exportLog w')) = map msg_id details"
proof -
  obtain messages w1 details w2 w3 where p:
    "retryWithBackoff E (getMessages E cl ch MESSAGE_LIMIT off) MAX_RETRIES w = (Inr (Some messages), w1)"
    "messages \<noteq> []"
    "retryWithBackoff E (getMessageDetail E cl ch (Some (map msg_id messages))) MAX_RETRIES w1 =
       (Inr (Some details), w2)"
    "download_stage E cl details w2 = (Inr (), w3)"
    "c = msg_id (last messages)"
    "w' = wait E RATE_LIMIT_DELAY
            (showProgress (currentBatchDownloaded w3) (currentBatchSkipped w3)
               (updateLastSelection c (recordMessages E details w3)))"
    using process_page_success [OF assms] by metis
  have "ext_by fetch_event w w1"
    using ext_by_retry_getMessages [of w E cl ch MESSAGE_LIMIT off MAX_RETRIES] p(1) by simp
  then obtain f1 where f1: "trace w1 = trace w @ f1" "list_all background f1"
      "exportLog w1 = exportLog w" "lastSelection w1 = lastSelection w"
      "totalDownloaded w1 = totalDownloaded w"
    by (rule ext_by_fetch_events)
  have "ext_by fetch_event w1 w2"
    using ext_by_retry_getMessageDetail [of w1 E cl ch "Some (map msg_id messages)" MAX_RETRIES] p(3)
    by simp
  then obtain f2 where f2: "trace w2 = trace w1 @ f2" "list_all background f2"
      "exportLog w2 = exportLog w1" "lastSelection w2 = lastSelection w1"
      "totalDownloaded w2 = totalDownloaded w1"
    by (rule ext_by_fetch_events)
  obtain st where st: "trace w3 = trace w2 @ st" "list_all stage_event st" "sched_ok 0 0 None st"
      "starts st = settles st" "totalDownloaded w3 = totalDownloaded w2 + int (starts st)"
      "currentBatchDownloaded w3 = int (starts st)" "exportLog w3 = exportLog w2"
      "lastSelection w3 = lastSelection w2"
    using download_stage_step [of E cl details w2] p(4) by auto
  let ?pre = "(f1 @ f2) @ st"
  have bg: "list_all background (f1 @ f2)"
    using f1(2) f2(2) by simp
  have cnt: "starts ?pre = starts st" "settles ?pre = settles st"
    using bg by simp_all
  have a: "list_all stage_event ?pre"
    using list_all_background_stage [OF bg] st(2) by simp
  have "sched_ok 0 0 (lastev None (f1 @ f2)) st"
    using st(3) sched_ok_first_prev by blast
  then have b: "sched_ok 0 0 None ?pre"
    using sched_ok_background [OF bg, of 0 0 None] bg
    by (simp only: sched_ok_append starts_background settles_background) simp
  have tr: "trace w' = trace w @ ?pre @ [RecordMessages (map msg_id details), PersistCursor c,
               Progress (int (starts ?pre)) (currentBatchSkipped w3),
               Sleep RATE_LIMIT_DELAY (math_random E (ticks w3) * 1000)]"
    unfolding cnt using p(6) f1(1) f2(1) st(1,6) by simp
  have fields: "totalDownloaded w' = totalDownloaded w + int (starts ?pre)"
     "lastSelection w' = (lastSelection w)\<lparr>sel_messageOffsetId := c\<rparr>"
    unfolding cnt using p(6) f1 f2 st by simp_all
  have log: "take (length (exportLog w)) (exportLog w') = exportLog w"
     "map le_id (drop (length (exportLog w)) (exportLog w')) = map msg_id details"
  proof -
    have e: "exportLog w3 = exportLog w" using f1 f2 st by simp
    have "exportLog w' = exportLog (recordMessages E details w3)"
      using p(6) by simp
    then show "take (length (exportLog w)) (exportLog w') = exportLog w"
      "map le_id (drop (length (exportLog w)) (exportLog w')) = map msg_id details"
      using recordMessages_fields(2,3) [of w3 E details] e by simp_all
  qed
  have bal: "starts ?pre = settles ?pre"
    using cnt st(4) by simp
  have f: "fst (retryWithBackoff E (getMessages E cl ch MESSAGE_LIMIT off) MAX_RETRIES w) = Inr (Some messages)"
    using p(1) by simp
  have main: "fst (retryWithBackoff E (getMessages E cl ch MESSAGE_LIMIT off) MAX_RETRIES w) = Inr (Some messages) \<and>
     messages \<noteq> [] \<and> c = msg_id (last messages) \<and>
     trace w' = trace w @ ?pre @ [RecordMessages (map msg_id details), PersistCursor c,
                 Progress (int (starts ?pre)) (currentBatchSkipped w3),
                 Sleep RATE_LIMIT_DELAY (math_random E (ticks w3) * 1000)] \<and>
     list_all stage_event ?pre \<and> sched_ok 0 0 None ?pre \<and> starts ?pre = settles ?pre \<and>
     totalDownloaded w' = totalDownloaded w + int (starts ?pre) \<and>
     lastSelection w' = (lastSelection w)\<lparr>sel_messageOffsetId := c\<rparr> \<and>
     take (length (exportLog w)) (exportLog w') = exportLog w \<and>
     map le_id (drop (length (exportLog w)) (exportLog w')) = map msg_id details"
    by (intro conjI f p(2) p(5) tr a b bal fields log)
  show ?thesis
    by (rule exI [of _ messages], rule exI [of _ details], rule exI [of _ ?pre],
        rule exI [of _ "currentBatchSkipped w3"],
        rule exI [of _ "math_random E (ticks w3) * 1000"]) (rule main)
qed

subsection \<open>Which tasks start and settle\<close>

lemma start_ids_simps [simp]:
  "start_ids [] = []"
  "start_ids (TaskStart i # es) = i # start_ids es"
  "\<not> is_start e \<Longrightarrow> start_ids (e # es) = start_ids es"
  "start_ids (a @ b) = start_ids a @ start_ids b"
  by (simp_all add: start_ids_def) (cases e; simp)

lemma settlements_simps [simp]:
  "settlements [] = []"
  "settlements (TaskSettle i b # es) = (i, b) # settlements es"
  "\<not> is_settle e \<Longrightarrow> settlements (e # es) = settlements es"
  "settlements (a @ c) = settlements a @ settlements c"
  by (simp_all add: settlements_def) (cases e; simp)

lemma length_start_ids: "length (start_ids evs) = starts evs"
  by (induction evs) (auto simp: start_ids_def starts_def split: event.splits)

lemma length_settlements: "length (settlements evs) = settles evs"
  by (induction evs) (auto simp: settlements_def settles_def split: event.splits)

lemma background_ids [simp]:
  "list_all background evs \<Longrightarrow> start_ids evs = []"
  "list_all background evs \<Longrightarrow> settlements evs = []"
  by (induction evs) (auto dest: background_not_task)

lemma download_fn_skipped:
  "skippedFiles (snd (download_fn E cl msg w)) = skippedFiles w \<and>
   currentBatchSkipped (snd (download_fn E cl msg w)) = currentBatchSkipped w"
proof -
  let ?w1 = "wait E DOWNLOAD_DELAY w"
  let ?d = "downloadMessageMedia E cl (Some msg) (Some (getMediaPath E msg (outputFolder ?w1))) ?w1"
  obtain b where b: "fst ?d = Inr b"
    using downloadMessageMedia_resolves by blast
  have r: "snd (download_fn E cl msg w) =
        (snd ?d)\<lparr>totalDownloaded := totalDownloaded (snd ?d) + 1,
                  currentBatchDownloaded := currentBatchDownloaded (snd ?d) + 1\<rparr>"
    using b by (cases ?d) (simp add: download_fn_def Let_def)
  have "ext_by background ?w1 (snd ?d)"
    by (rule ext_by_downloadMessageMedia)
  then have "skippedFiles (snd ?d) = skippedFiles w" "currentBatchSkipped (snd ?d) = currentBatchSkipped w"
    by (simp_all add: ext_by_def)
  then show ?thesis by (simp add: r)
qed

lemma task_run_tasks:
  "\<exists>b evs. task_run E cl t w = (Inr (Some b), snd (task_run E cl t w)) \<and>
      trace (snd (task_run E cl t w)) = trace w @ evs @ [TaskSettle (msg_id (task_msg t)) b] \<and>
      list_all background evs \<and>
      totalDownloaded (snd (task_run E cl t w)) = totalDownloaded w + 1 \<and>
      currentBatchDownloaded (snd (task_run E cl t w)) = currentBatchDownloaded w + 1 \<and>
      skippedFiles (snd (task_run E cl t w)) = skippedFiles w \<and>
      currentBatchSkipped (snd (task_run E cl t w)) = currentBatchSkipped w"
proof -
  let ?w0 = "checkRateLimit_resume (task_gate t) w"
  let ?d = "download_fn E cl (task_msg t) ?w0"
  obtain b evs where s: "fst (task_run E cl t w) = Inr (Some b)"
      "stage_step 1 (evs @ [TaskSettle (msg_id (task_msg t)) b]) w (snd (task_run E cl t w))"
      "list_all background evs"
    using task_run_step by blast
  obtain b' where d: "fst ?d = Inr b'"
    using download_fn_resolves by blast
  have r: "snd (task_run E cl t w) = emit (TaskSettle (msg_id (task_msg t)) (b' = True)) (snd ?d)"
    using d by (cases ?d) (simp add: task_run_def)
  have "ext_by fetch_event w ?w0"
    by (rule ext_by_checkRateLimit_resume)
  then have k: "skippedFiles ?w0 = skippedFiles w" "currentBatchSkipped ?w0 = currentBatchSkipped w"
    by (simp_all add: ext_by_def)
  have sk: "skippedFiles (snd (task_run E cl t w)) = skippedFiles w"
      "currentBatchSkipped (snd (task_run E cl t w)) = currentBatchSkipped w"
    using download_fn_skipped [of E cl "task_msg t" ?w0] k by (simp_all add: r)
  have "task_run E cl t w = (Inr (Some b), snd (task_run E cl t w))"
    using s(1) by (cases "task_run E cl t w") simp
  then show ?thesis
    using s(2,3) sk unfolding stage_step_def by (intro exI [of _ b] exI [of _ evs]) simp
qed

lemma join_all_tasks:
  "\<exists>evs. join_all E cl q w = (Inr (), snd (join_all E cl q w)) \<and>
      trace (snd (join_all E cl q w)) = trace w @ evs \<and>
      start_ids evs = [] \<and> map fst (settlements evs) = map (msg_id \<circ> task_msg) q \<and>
      totalDownloaded (snd (join_all E cl q w)) = totalDownloaded w + int (length q) \<and>
      currentBatchDownloaded (snd (join_all E cl q w)) = currentBatchDownloaded w + int (length q) \<and>
      skippedFiles (snd (join_all E cl q w)) = skippedFiles w \<and>
      currentBatchSkipped (snd (join_all E cl q w)) = currentBatchSkipped w"
proof (induction q arbitrary: w)
  case Nil
  show ?case by (intro exI [of _ "[]"]) simp
next
  case (Cons t ts)
  define w1 where "w1 = snd (task_run E cl t w)"
  obtain b e1 where t1: "task_run E cl t w = (Inr (Some b), w1)"
      "trace w1 = trace w @ e1 @ [TaskSettle (msg_id (task_msg t)) b]" "list_all background e1"
      "totalDownloaded w1 = totalDownloaded w + 1"
      "currentBatchDownloaded w1 = currentBatchDownloaded w + 1"
      "skippedFiles w1 = skippedFiles w" "currentBatchSkipped w1 = currentBatchSkipped w"
    using task_run_tasks [of E cl t w] unfolding w1_def by blast
  define w2 where "w2 = snd (join_all E cl ts w1)"
  obtain e2 where t2: "join_all E cl ts w1 = (Inr (), w2)"
      "trace w2 = trace w1 @ e2" "start_ids e2 = []"
      "map fst (settlements e2) = map (msg_id \<circ> task_msg) ts"
      "totalDownloaded w2 = totalDownloaded w1 + int (length ts)"
      "currentBatchDownloaded w2 = currentBatchDownloaded w1 + int (length ts)"
      "skippedFiles w2 = skippedFiles w1" "currentBatchSkipped w2 = currentBatchSkipped w1"
    using Cons.IH [of w1] unfolding w2_def by blast
  have j: "join_all E cl (t # ts) w = (Inr (), w2)"
    using t1(1) t2(1) by simp
  let ?evs = "(e1 @ [TaskSettle (msg_id (task_msg t)) b]) @ e2"
  have a: "trace w2 = trace w @ ?evs"
    using t1(2) t2(2) by simp
  have b: "start_ids ?evs = []" "map fst (settlements ?evs) = map (msg_id \<circ> task_msg) (t # ts)"
    using t1(3) t2(3,4) by simp_all
  have c: "totalDownloaded w2 = totalDownloaded w + int (length (t # ts))"
      "currentBatchDownloaded w2 = currentBatchDownloaded w + int (length (t # ts))"
      "skippedFiles w2 = skippedFiles w" "currentBatchSkipped w2 = currentBatchSkipped w"
    using t1(4-7) t2(5-8) by simp_all
  show ?case
    unfolding j snd_conv using a b c by (intro exI [of _ ?evs]) simp
qed

lemma task_start_tasks:
  obtains g w1 evs where "task_start E msg w = (Task msg g, w1)"
    and "trace w1 = trace w @ TaskStart (msg_id msg) # evs" and "list_all background evs"
    and "totalDownloaded w1 = totalDownloaded w"
    and "currentBatchDownloaded w1 = currentBatchDownloaded w"
    and "skippedFiles w1 = skippedFiles w" and "currentBatchSkipped w1 = currentBatchSkipped w"
proof -
  let ?w0 = "emit (TaskStart (msg_id msg)) w"
  obtain g w1 where c: "checkRateLimit_begin E ?w0 = (g, w1)"
    by (cases "checkRateLimit_begin E ?w0")
  have "ext_by fetch_event ?w0 (snd (checkRateLimit_begin E ?w0))"
    by (rule ext_by_checkRateLimit_begin)
  then have e: "ext_by fetch_event ?w0 w1"
    using c by simp
  then obtain evs where evs: "trace w1 = trace ?w0 @ evs" "list_all fetch_event evs"
    unfolding ext_by_def by blast
  have f: "totalDownloaded w1 = totalDownloaded w" "currentBatchDownloaded w1 = currentBatchDownloaded w"
      "skippedFiles w1 = skippedFiles w" "currentBatchSkipped w1 = currentBatchSkipped w"
    using e by (simp_all add: ext_by_def)
  have "task_start E msg w = (Task msg g, w1)"
    using c by (simp add: task_start_def)
  moreover have "trace w1 = trace w @ TaskStart (msg_id msg) # evs"
    using evs(1) by simp
  ultimately show ?thesis
    using that list_all_fetch_background [OF evs(2)] f by blast
qed


lemma download_loop_single:
  assumes "length q < MAX_PARALLEL_DOWNLOAD"
  shows "\<exists>q' evs. download_loop E cl [m] q w = (Inr q', snd (download_loop E cl [m] q w)) \<and>
     trace (snd (download_loop E cl [m] q w)) = trace w @ evs \<and>
     start_ids evs = (if truthy (canDownload E m w) then [msg_id m] else []) \<and>
     map fst (settlements evs) @ map (msg_id \<circ> task_msg) q' =
       map (msg_id \<circ> task_msg) q @ start_ids evs \<and>
     length q' < MAX_PARALLEL_DOWNLOAD \<and>
     totalDownloaded (snd (download_loop E cl [m] q w)) =
       totalDownloaded w + int (length (settlements evs)) \<and>
     currentBatchDownloaded (snd (download_loop E cl [m] q w)) =
       currentBatchDownloaded w + int (length (settlements evs)) \<and>
     skippedFiles (snd (download_loop E cl [m] q w)) =
       skippedFiles w + (if \<not> truthy (canDownload E m w) \<and> hasMedia m then 1 else 0) \<and>
     currentBatchSkipped (snd (download_loop E cl [m] q w)) =
       currentBatchSkipped w + (if \<not> truthy (canDownload E m w) \<and> hasMedia m then 1 else 0)"
proof (cases "truthy (canDownload E m w)")
  case False
  define w1 where "w1 = (if hasMedia m
      then w\<lparr>skippedFiles := skippedFiles w + 1, currentBatchSkipped := currentBatchSkipped w + 1\<rparr>
      else w)"
  have eq: "download_loop E cl [m] q w = (Inr q, w1)"
    using False assms by (simp add: w1_def)
  show ?thesis
    unfolding eq snd_conv using False assms
    by (intro exI [of _ q] exI [of _ "[]"]) (simp add: w1_def)
next
  case True
  obtain g w1 e0 where ts: "task_start E m w = (Task m g, w1)"
      "trace w1 = trace w @ TaskStart (msg_id m) # e0" "list_all background e0"
      "totalDownloaded w1 = totalDownloaded w" "currentBatchDownloaded w1 = currentBatchDownloaded w"
      "skippedFiles w1 = skippedFiles w" "currentBatchSkipped w1 = currentBatchSkipped w"
    by (rule task_start_tasks)
  define q1 where "q1 = q @ [Task m g]"
  show ?thesis
  proof (cases "length q1 \<ge> MAX_PARALLEL_DOWNLOAD")
    case False
    have eq: "download_loop E cl [m] q w = (Inr q1, w1)"
      using True ts(1) False by (simp add: q1_def)
    show ?thesis
      unfolding eq snd_conv using True False ts(2-7)
      by (intro exI [of _ q1] exI [of _ "TaskStart (msg_id m) # e0"]) (simp add: q1_def)
  next
    case full: True
    define w2 where "w2 = snd (join_all E cl q1 w1)"
    obtain e2 where j: "join_all E cl q1 w1 = (Inr (), w2)"
        "trace w2 = trace w1 @ e2" "start_ids e2 = []"
        "map fst (settlements e2) = map (msg_id \<circ> task_msg) q1"
        "totalDownloaded w2 = totalDownloaded w1 + int (length q1)"
        "currentBatchDownloaded w2 = currentBatchDownloaded w1 + int (length q1)"
        "skippedFiles w2 = skippedFiles w1" "currentBatchSkipped w2 = currentBatchSkipped w1"
      using join_all_tasks [of E cl q1 w1] unfolding w2_def by blast
    let ?sl = "Sleep RATE_LIMIT_DELAY (math_random E (ticks w2) * 1000)"
    let ?evs = "(TaskStart (msg_id m) # e0) @ e2 @ [?sl]"
    have eq: "download_loop E cl [m] q w = (Inr [], wait E RATE_LIMIT_DELAY w2)"
      using True ts(1) full j(1) by (simp add: q1_def)
    have l: "length (settlements e2) = length q1"
      using j(4) by (metis length_map)
    have a: "trace (wait E RATE_LIMIT_DELAY w2) = trace w @ ?evs"
      using ts(2) j(2) by simp
    have b: "start_ids ?evs = [msg_id m]"
      using ts(3) j(3) by simp
    have c: "settlements ?evs = settlements e2"
      using ts(3) by simp
    have d: "map fst (settlements ?evs) @ map (msg_id \<circ> task_msg) [] =
               map (msg_id \<circ> task_msg) q @ start_ids ?evs"
      unfolding b c using j(4) by (simp add: q1_def)
    have e: "totalDownloaded (wait E RATE_LIMIT_DELAY w2) = totalDownloaded w + int (length (settlements ?evs))"
        "currentBatchDownloaded (wait E RATE_LIMIT_DELAY w2) =
           currentBatchDownloaded w + int (length (settlements ?evs))"
        "skippedFiles (wait E RATE_LIMIT_DELAY w2) = skippedFiles w"
        "currentBatchSkipped (wait E RATE_LIMIT_DELAY w2) = currentBatchSkipped w"
      unfolding c l using j(5-8) ts(4-7) by simp_all
    have f: "length ([] :: task list) < MAX_PARALLEL_DOWNLOAD"
      by (simp add: MAX_PARALLEL_DOWNLOAD_def)
    show ?thesis
      unfolding eq snd_conv using True a b d e f
      by (intro exI [of _ "[]"] exI [of _ ?evs]) simp
  qed
qed

lemma download_loop_Cons:
  "download_loop E cl (m # rest) q w =
     (case download_loop E cl [m] q w of
        (Inl err, w1) \<Rightarrow> (Inl err, w1)
      | (Inr q1, w1) \<Rightarrow> download_loop E cl rest q1 w1)"
  by (simp split: prod.splits sum.splits)

lemma download_loop_append:
  "download_loop E cl (xs @ ys) q w =
     (case download_loop E cl xs q w of
        (Inl err, w1) \<Rightarrow> (Inl err, w1)
      | (Inr q1, w1) \<Rightarrow> download_loop E cl ys q1 w1)"
proof (induction xs arbitrary: q w)
  case Nil
  show ?case by simp
next
  case (Cons m xs)
  obtain r w1 where s: "download_loop E cl [m] q w = (r, w1)"
    by (cases "download_loop E cl [m] q w")
  show ?case
  proof (cases r)
    case (Inl err)
    then show ?thesis
      using s by (simp only: append_Cons download_loop_Cons [of E cl m "xs @ ys"]
                    download_loop_Cons [of E cl m xs]) simp
  next
    case (Inr q1)
    then show ?thesis
      using s Cons.IH [of q1 w1]
      by (simp only: append_Cons download_loop_Cons [of E cl m "xs @ ys"]
            download_loop_Cons [of E cl m xs]) simp
  qed
qed


lemma passes_filter_snoc:
  "k < length xs \<Longrightarrow> passes_filter E cl (xs @ [m]) w k = passes_filter E cl xs w k"
  "passes_filter E cl (xs @ [m]) w (length xs) =
     truthy (canDownload E m (snd (download_loop E cl xs [] w)))"
  by (simp_all add: passes_filter_def examined_in_def nth_append)

lemma queued_snoc:
  "queued E cl (xs @ [m]) w =
     queued E cl xs w @
       (if truthy (canDownload E m (snd (download_loop E cl xs [] w))) then [m] else [])"
proof -
  have a: "filter (passes_filter E cl (xs @ [m]) w) [0..<length xs] =
           filter (passes_filter E cl xs w) [0..<length xs]"
    by (rule filter_cong) (simp_all add: passes_filter_snoc)
  have b: "map (nth (xs @ [m])) (filter (passes_filter E cl xs w) [0..<length xs]) =
           map (nth xs) (filter (passes_filter E cl xs w) [0..<length xs])"
    by (rule map_cong) (simp_all add: nth_append)
  show ?thesis
    by (simp add: queued_def a b passes_filter_snoc(2))
qed

lemma skipped_snoc:
  "skipped E cl (xs @ [m]) w =
     skipped E cl xs w @
       (if \<not> truthy (canDownload E m (snd (download_loop E cl xs [] w))) \<and> hasMedia m
        then [m] else [])"
proof -
  let ?P = "\<lambda>ys k. \<not> passes_filter E cl ys w k \<and> hasMedia (ys ! k)"
  have a: "filter (?P (xs @ [m])) [0..<length xs] = filter (?P xs) [0..<length xs]"
    by (rule filter_cong) (simp_all add: passes_filter_snoc nth_append)
  have b: "map (nth (xs @ [m])) (filter (?P xs) [0..<length xs]) =
           map (nth xs) (filter (?P xs) [0..<length xs])"
    by (rule map_cong) (simp_all add: nth_append)
  show ?thesis
    by (simp add: skipped_def a b passes_filter_snoc(2))
qed

lemma download_loop_tasks:
  "\<exists>q evs. download_loop E cl xs [] w = (Inr q, snd (download_loop E cl xs [] w)) \<and>
     trace (snd (download_loop E cl xs [] w)) = trace w @ evs \<and>
     start_ids evs = map msg_id (queued E cl xs w) \<and>
     map fst (settlements evs) @ map (msg_id \<circ> task_msg) q = start_ids evs \<and>
     length q < MAX_PARALLEL_DOWNLOAD \<and>
     totalDownloaded (snd (download_loop E cl xs [] w)) =
       totalDownloaded w + int (length (settlements evs)) \<and>
     currentBatchDownloaded (snd (download_loop E cl xs [] w)) =
       currentBatchDownloaded w + int (length (settlements evs)) \<and>
     skippedFiles (snd (download_loop E cl xs [] w)) =
       skippedFiles w + int (length (skipped E cl xs w)) \<and>
     currentBatchSkipped (snd (download_loop E cl xs [] w)) =
       currentBatchSkipped w + int (length (skipped E cl xs w))"
proof (induction xs rule: rev_induct)
  case Nil
  show ?case
    by (intro exI [of _ "[]"]) (simp add: queued_def skipped_def MAX_PARALLEL_DOWNLOAD_def)
next
  case (snoc m xs)
  define wx where "wx = snd (download_loop E cl xs [] w)"
  obtain q evs where ih: "download_loop E cl xs [] w = (Inr q, wx)"
      "trace wx = trace w @ evs"
      "start_ids evs = map msg_id (queued E cl xs w)"
      "map fst (settlements evs) @ map (msg_id \<circ> task_msg) q = start_ids evs"
      "length q < MAX_PARALLEL_DOWNLOAD"
      "totalDownloaded wx = totalDownloaded w + int (length (settlements evs))"
      "currentBatchDownloaded wx = currentBatchDownloaded w + int (length (settlements evs))"
      "skippedFiles wx = skippedFiles w + int (length (skipped E cl xs w))"
      "currentBatchSkipped wx = currentBatchSkipped w + int (length (skipped E cl xs w))"
    using snoc.IH unfolding wx_def by blast
  define wy where "wy = snd (download_loop E cl [m] q wx)"
  obtain q' e1 where st: "download_loop E cl [m] q wx = (Inr q', wy)"
      "trace wy = trace wx @ e1"
      "start_ids e1 = (if truthy (canDownload E m wx) then [msg_id m] else [])"
      "map fst (settlements e1) @ map (msg_id \<circ> task_msg) q' =
         map (msg_id \<circ> task_msg) q @ start_ids e1"
      "length q' < MAX_PARALLEL_DOWNLOAD"
      "totalDownloaded wy = totalDownloaded wx + int (length (settlements e1))"
      "currentBatchDownloaded wy = currentBatchDownloaded wx + int (length (settlements e1))"
      "skippedFiles wy =
         skippedFiles wx + (if \<not> truthy (canDownload E m wx) \<and> hasMedia m then 1 else 0)"
      "currentBatchSkipped wy =
         currentBatchSkipped wx + (if \<not> truthy (canDownload E m wx) \<and> hasMedia m then 1 else 0)"
    using download_loop_single [OF ih(5), of E cl m wx] unfolding wy_def by blast
  have eq: "download_loop E cl (xs @ [m]) [] w = (Inr q', wy)"
    by (simp only: download_loop_append ih(1) st(1) prod.case sum.case)
  let ?evs = "evs @ e1"
  have a: "trace wy = trace w @ ?evs"
    using ih(2) st(2) by simp
  have b: "start_ids ?evs = map msg_id (queued E cl (xs @ [m]) w)"
    using ih(3) st(3) by (simp add: queued_snoc wx_def)
  have c: "map fst (settlements ?evs) @ map (msg_id \<circ> task_msg) q' = start_ids ?evs"
  proof -
    have "map fst (settlements ?evs) @ map (msg_id \<circ> task_msg) q' =
            map fst (settlements evs) @ (map fst (settlements e1) @ map (msg_id \<circ> task_msg) q')"
      by simp
    also have "\<dots> = map fst (settlements evs) @ (map (msg_id \<circ> task_msg) q @ start_ids e1)"
      by (simp only: st(4))
    also have "\<dots> = start_ids evs @ start_ids e1"
      using ih(4) by (simp only: append_assoc [symmetric])
    finally show ?thesis by simp
  qed
  have d: "totalDownloaded wy = totalDownloaded w + int (length (settlements ?evs))"
      "currentBatchDownloaded wy = currentBatchDownloaded w + int (length (settlements ?evs))"
    using ih(6,7) st(6,7) by simp_all
  have e: "skippedFiles wy = skippedFiles w + int (length (skipped E cl (xs @ [m]) w))"
      "currentBatchSkipped wy = currentBatchSkipped w + int (length (skipped E cl (xs @ [m]) w))"
    using ih(8,9) st(8,9) by (simp_all add: skipped_snoc wx_def)
  show ?case
    unfolding eq snd_conv
    by (intro exI [of _ q'] exI [of _ ?evs] conjI)
       (rule refl, rule a, rule b, rule c, rule st(5), rule d(1), rule d(2), rule e(1), rule e(2))
qed

text \<open>The download stage of a page: the tasks that start are those of the queued records.\<close>

lemma download_stage_tasks:
  "\<exists>evs. trace (snd (download_stage E cl details w)) = trace w @ evs \<and>
      start_ids evs = map msg_id (queued E cl details (page_start w)) \<and>
      map fst (settlements evs) = start_ids evs \<and>
      totalDownloaded (snd (download_stage E cl details w)) =
        totalDownloaded w + int (length (queued E cl details (page_start w))) \<and>
      currentBatchDownloaded (snd (download_stage E cl details w)) =
        int (length (queued E cl details (page_start w))) \<and>
      skippedFiles (snd (download_stage E cl details w)) =
        skippedFiles w + int (length (skipped E cl details (page_start w))) \<and>
      currentBatchSkipped (snd (download_stage E cl details w)) =
        int (length (skipped E cl details (page_start w)))"
proof -
  let ?w0 = "page_start w"
  define w1 where "w1 = snd (download_loop E cl details [] ?w0)"
  obtain q e1 where l: "download_loop E cl details [] ?w0 = (Inr q, w1)"
      "trace w1 = trace ?w0 @ e1"
      "start_ids e1 = map msg_id (queued E cl details ?w0)"
      "map fst (settlements e1) @ map (msg_id \<circ> task_msg) q = start_ids e1"
      "totalDownloaded w1 = totalDownloaded ?w0 + int (length (settlements e1))"
      "currentBatchDownloaded w1 = currentBatchDownloaded ?w0 + int (length (settlements e1))"
      "skippedFiles w1 = skippedFiles ?w0 + int (length (skipped E cl details ?w0))"
      "currentBatchSkipped w1 = currentBatchSkipped ?w0 + int (length (skipped E cl details ?w0))"
    using download_loop_tasks [of E cl details ?w0] unfolding w1_def by blast
  define w2 where "w2 = snd (join_all E cl q w1)"
  obtain e2 where j: "join_all E cl q w1 = (Inr (), w2)"
      "trace w2 = trace w1 @ e2" "start_ids e2 = []"
      "map fst (settlements e2) = map (msg_id \<circ> task_msg) q"
      "totalDownloaded w2 = totalDownloaded w1 + int (length q)"
      "currentBatchDownloaded w2 = currentBatchDownloaded w1 + int (length q)"
      "skippedFiles w2 = skippedFiles w1" "currentBatchSkipped w2 = currentBatchSkipped w1"
    using join_all_tasks [of E cl q w1] unfolding w2_def by blast
  have res: "download_stage E cl details w = (Inr (), w2)"
  proof (cases "q = []")
    case True
    then have "w2 = w1" by (simp add: w2_def)
    then show ?thesis using True l(1) by (simp add: download_stage_def page_start_def)
  next
    case False
    then show ?thesis using l(1) j(1) by (simp add: download_stage_def page_start_def)
  qed
  let ?evs = "e1 @ e2"
  have s: "map fst (settlements ?evs) = start_ids ?evs"
    using l(4) j(3,4) by simp
  have n: "length (settlements ?evs) = length (queued E cl details ?w0)"
  proof -
    have "length (map fst (settlements ?evs)) = length (start_ids ?evs)"
      by (simp only: s)
    then show ?thesis using l(3) j(3) by simp
  qed
  have n': "int (length (settlements e1)) + int (length q) = int (length (queued E cl details ?w0))"
  proof -
    have "length (settlements e2) = length q"
      using j(4) by (metis length_map)
    then show ?thesis using n by simp
  qed
  have f: "trace w2 = trace w @ ?evs" "start_ids ?evs = map msg_id (queued E cl details ?w0)"
    using l(2,3) j(2,3) by (simp_all add: page_start_def)
  have g: "totalDownloaded w2 = totalDownloaded w + int (length (queued E cl details ?w0))"
      "currentBatchDownloaded w2 = int (length (queued E cl details ?w0))"
      "skippedFiles w2 = skippedFiles w + int (length (skipped E cl details ?w0))"
      "currentBatchSkipped w2 = int (length (skipped E cl details ?w0))"
    using l(5-8) j(5-8) n' by (simp_all add: page_start_def)
  show ?thesis
    unfolding res snd_conv using f s g by (intro exI [of _ ?evs]) simp
qed

lemma queued_has_media: "m \<in> set (queued E cl details w) \<Longrightarrow> hasMedia m"
proof -
  assume "m \<in> set (queued E cl details w)"
  then obtain k where k: "k < length details" "passes_filter E cl details w k" "m = details ! k"
    by (auto simp: queued_def)
  have "\<not> hasMedia m \<Longrightarrow> \<not> truthy (canDownload E m v)" for v
    by (simp add: canDownload_def)
  then show ?thesis
    using k(2,3) unfolding passes_filter_def by blast
qed



subsection \<open>A whole run\<close>

lemma run_ok_append:
  "run_ok s t (a @ b) \<longleftrightarrow> run_ok s t a \<and> run_ok (s + starts a) (t + settles a) b"
  by (induction a arbitrary: s t) auto

lemma run_ok_shift: "run_ok (s + c) (t + c) evs = run_ok s t evs"
proof (induction evs arbitrary: s t)
  case Nil
  show ?case by simp
next
  case (Cons e es)
  have "run_ok (Suc s + c) (t + c) es = run_ok (Suc s) t es"
       "run_ok (s + c) (Suc t + c) es = run_ok s (Suc t) es"
       "run_ok (Suc s + c) (Suc t + c) es = run_ok (Suc s) (Suc t) es"
       "run_ok (s + c) (t + c) es = run_ok s t es"
    using Cons.IH by blast+
  then show ?case by auto
qed

lemma run_ok_plain: "list_all plain_event evs \<Longrightarrow> run_ok s t evs"
  by (induction evs) (auto simp: plain_event_def)

lemma plain_counts [simp]:
  "list_all plain_event evs \<Longrightarrow> starts evs = 0"
  "list_all plain_event evs \<Longrightarrow> settles evs = 0"
  by (induction evs) (auto simp: plain_event_def)

lemma background_plain: "background e \<Longrightarrow> plain_event e"
  by (cases e) (simp_all add: plain_event_def)

lemma list_all_background_plain: "list_all background evs \<Longrightarrow> list_all plain_event evs"
  unfolding list_all_iff by (simp add: background_plain)

lemma stage_event_not_persist: "stage_event e \<Longrightarrow> \<not> is_persist e"
  by (cases e) (simp_all add: stage_event_def)

lemma sched_ok_run_ok:
  "sched_ok s t prev evs \<Longrightarrow> list_all stage_event evs \<Longrightarrow> run_ok s t evs"
proof (induction evs arbitrary: s t prev)
  case Nil
  show ?case by simp
next
  case (Cons e es)
  have np: "\<not> is_persist e"
    using Cons.prems(2) by (simp add: stage_event_not_persist)
  have rest: "run_ok (if is_start e then Suc s else s) (if is_settle e then Suc t else t) es"
    using Cons.IH [of "if is_start e then Suc s else s" "if is_settle e then Suc t else t" "Some e"]
      Cons.prems by simp
  show ?case
    using Cons.prems(1) np rest by (auto split: if_splits)
qed

lemma run_step_refl [simp]: "run_step w w"
  by (simp add: run_step_def)

lemma run_step_trans:
  assumes "run_step w w1" and "run_step w1 w2"
  shows "run_step w w2"
proof -
  from assms(1) obtain a where a: "trace w1 = trace w @ a" "run_ok 0 0 a" "starts a = settles a"
    unfolding run_step_def by blast
  from assms(2) obtain b where b: "trace w2 = trace w1 @ b" "run_ok 0 0 b" "starts b = settles b"
    unfolding run_step_def by blast
  have "run_ok (0 + settles a) (0 + settles a) b"
    using b(2) by (simp only: run_ok_shift)
  then have "run_ok 0 0 (a @ b)"
    using a(2,3) by (simp add: run_ok_append)
  moreover have "trace w2 = trace w @ (a @ b)" "starts (a @ b) = settles (a @ b)"
    using a b by simp_all
  ultimately show ?thesis
    unfolding run_step_def by blast
qed

lemma run_step_plain:
  "trace w' = trace w @ evs \<Longrightarrow> list_all plain_event evs \<Longrightarrow> run_step w w'"
  unfolding run_step_def using run_ok_plain by force

lemma run_step_ext_by: "ext_by fetch_event w w' \<Longrightarrow> run_step w w'"
  by (erule ext_by_fetch_events) (rule run_step_plain, assumption, rule list_all_background_plain)

lemma run_step_wait: "run_step w (wait E ms w)"
  by (rule run_step_plain [of _ _ "[Sleep ms (math_random E (ticks w) * 1000)]"])
     (simp_all add: plain_event_def)

lemma run_step_wait_number: "run_step w (wait_number E ms w)"
proof (cases ms)
  case (Finite n)
  then show ?thesis by (simp add: wait_number_def run_step_wait)
next
  case Infinity
  then show ?thesis
    by (intro run_step_plain [of _ _ "[SleepInfinity]"]) (simp_all add: wait_number_def plain_event_def)
qed

lemma run_ok_bound:
  "run_ok s t evs \<Longrightarrow> s \<le> t + MAX_PARALLEL_DOWNLOAD \<Longrightarrow>
     s + starts (take k evs) \<le> t + settles (take k evs) + MAX_PARALLEL_DOWNLOAD"
proof (induction evs arbitrary: s t k)
  case Nil
  then show ?case by simp
next
  case (Cons e es)
  show ?case
  proof (cases k)
    case 0
    then show ?thesis using Cons.prems by simp
  next
    case (Suc k')
    have ok: "run_ok (if is_start e then Suc s else s) (if is_settle e then Suc t else t) es"
      using Cons.prems(1) by simp
    have le: "(if is_start e then Suc s else s) \<le> (if is_settle e then Suc t else t) + MAX_PARALLEL_DOWNLOAD"
      using Cons.prems by (cases e) (auto split: if_splits)
    from Cons.IH [OF ok le, of k'] show ?thesis
      using Suc by (cases e) (auto split: if_splits)
  qed
qed


lemma run_step_process_page:
  assumes "process_page E cl ch off w = (r, w')"
  shows "run_step w w'"
proof (cases "\<exists>c. r = Inr (Some c)")
  case True
  then obtain c where c: "r = Inr (Some c)" by blast
  obtain messages and details :: "message list" and pre bs j where s:
     "trace w' = trace w @ pre @ [RecordMessages (map msg_id details), PersistCursor c,
                                 Progress (int (starts pre)) bs, Sleep RATE_LIMIT_DELAY j]"
     "list_all stage_event pre" "sched_ok 0 0 None pre" "starts pre = settles pre"
    using process_page_structure [OF assms [unfolded c]] by blast
  let ?tail = "[RecordMessages (map msg_id details), PersistCursor c,
                Progress (int (starts pre)) bs, Sleep RATE_LIMIT_DELAY j]"
  have "run_ok 0 0 pre"
    using sched_ok_run_ok [OF s(3) s(2)] .
  moreover have "run_ok (0 + starts pre) (0 + settles pre) ?tail"
    using s(4) by simp
  ultimately have "run_ok 0 0 (pre @ ?tail)"
    by (simp only: run_ok_append)
  moreover have "starts (pre @ ?tail) = settles (pre @ ?tail)"
    using s(4) by simp
  ultimately show ?thesis
    unfolding run_step_def using s(1) by blast
next
  case False
  obtain r1 w1 where f1: "retryWithBackoff E (getMessages E cl ch MESSAGE_LIMIT off) MAX_RETRIES w = (r1, w1)"
    by (cases "retryWithBackoff E (getMessages E cl ch MESSAGE_LIMIT off) MAX_RETRIES w")
  have e1: "run_step w w1"
    using ext_by_retry_getMessages [of w E cl ch MESSAGE_LIMIT off MAX_RETRIES] f1
    by (simp add: run_step_ext_by)
  show ?thesis
  proof (cases r1)
    case (Inl err)
    then have "w' = w1" using assms f1 by (simp add: process_page_def)
    then show ?thesis using e1 by simp
  next
    case (Inr v)
    show ?thesis
    proof (cases v)
      case None
      then have "w' = w1" using assms f1 Inr by (simp add: process_page_def)
      then show ?thesis using e1 by simp
    next
      case (Some messages)
      show ?thesis
      proof (cases "messages = []")
        case True
        then have "w' = showProgress 0 0 w1" using assms f1 Inr Some by (simp add: process_page_def)
        then have "run_step w1 w'"
          by (intro run_step_plain [of _ _ "[Progress 0 0]"]) (simp_all add: plain_event_def)
        then show ?thesis using run_step_trans [OF e1] by blast
      next
        case ne: False
        obtain r2 w2 where f2: "retryWithBackoff E (getMessageDetail E cl ch (Some (map msg_id messages))) MAX_RETRIES w1 = (r2, w2)"
          by (cases "retryWithBackoff E (getMessageDetail E cl ch (Some (map msg_id messages))) MAX_RETRIES w1")
        have e2: "run_step w1 w2"
          using ext_by_retry_getMessageDetail [of w1 E cl ch "Some (map msg_id messages)" MAX_RETRIES] f2
          by (simp add: run_step_ext_by)
        have "w' = w2"
        proof (cases r2)
          case (Inl err)
          then show ?thesis using assms f1 Inr Some ne f2 by (simp add: process_page_def)
        next
          case r2: (Inr v2)
          show ?thesis
          proof (cases v2)
            case None
            then show ?thesis using assms f1 Inr Some ne f2 r2 by (simp add: process_page_def)
          next
            case (Some details)
            obtain r3 w3 where f3: "download_stage E cl details w2 = (r3, w3)"
              by (cases "download_stage E cl details w2")
            have "r3 = Inr ()"
              using download_stage_step [of E cl details w2] f3 by auto
            then have "\<exists>c. r = Inr (Some c)"
              using assms f1 Inr \<open>v = Some messages\<close> ne f2 r2 Some f3
              by (auto simp: process_page_def Let_def)
            then show ?thesis using False by blast
          qed
        qed
        then show ?thesis using run_step_trans [OF e1 e2] by simp
      qed
    qed
  qed
qed

lemma run_step_try_block:
  assumes ih: "\<And>off w r w'. downloadChannel n E cl ch off w = Some (r, w') \<Longrightarrow> run_step w w'"
    and "try_block n E cl ch off w = Some (r, w')"
  shows "run_step w w'"
proof (cases "ch = ChanUndefined")
  case True
  then show ?thesis using assms(2) by (simp add: try_block_def)
next
  case False
  let ?w0 = "w\<lparr>outputFolder := Some (export_folder E ch)\<rparr>"
  let ?c = "(if off = 0 then countTotalMessages n E cl ch ?w0 else Some ?w0)"
  have e0: "run_step w ?w0"
    by (rule run_step_plain [of _ _ "[]"]) simp_all
  show ?thesis
  proof (cases ?c)
    case None
    then show ?thesis using assms(2) False by (simp add: try_block_def)
  next
    case (Some w1)
    have e1: "run_step ?w0 w1"
    proof (cases "off = 0")
      case True
      then show ?thesis using Some ext_by_countTotalMessages run_step_ext_by by simp
    next
      case False
      then show ?thesis using Some by simp
    qed
    obtain r2 w2 where pp: "process_page E cl ch off w1 = (r2, w2)"
      by (cases "process_page E cl ch off w1")
    have e2: "run_step w w2"
      using run_step_trans [OF e0 run_step_trans [OF e1 run_step_process_page [OF pp]]] .
    show ?thesis
    proof (cases r2)
      case (Inl err)
      then have "w' = w2" using assms(2) False Some pp by (simp add: try_block_def)
      then show ?thesis using e2 by simp
    next
      case (Inr v)
      show ?thesis
      proof (cases v)
        case None
        then have "w' = w2" using assms(2) False Some pp Inr by (simp add: try_block_def)
        then show ?thesis using e2 by simp
      next
        case (Some nxt)
        then have "downloadChannel n E cl ch nxt w2 = Some (r, w')"
          using assms(2) False \<open>?c = Some w1\<close> pp Inr by (simp add: try_block_def)
        then show ?thesis using run_step_trans [OF e2 ih] by blast
      qed
    qed
  qed
qed

lemma run_step_downloadChannel:
  "downloadChannel n E cl ch off w = Some (r, w') \<Longrightarrow> run_step w w'"
proof (induction n arbitrary: off w r w')
  case 0
  then show ?case by simp
next
  case (Suc n)
  show ?case
  proof (cases "try_block n E cl ch off w")
    case None
    then show ?thesis using Suc.prems by (simp add: downloadChannel_Suc)
  next
    case (Some p)
    obtain r3 w3 where p: "p = (r3, w3)" by (cases p)
    have e: "run_step w w3"
      using run_step_try_block [of n E cl ch off w r3 w3] Suc.IH Some p by blast
    show ?thesis
    proof (cases r3)
      case (Inr u)
      then have "w' = w3" using Suc.prems Some p by (simp add: downloadChannel_Suc)
      then show ?thesis using e by simp
    next
      case (Inl err)
      show ?thesis
      proof (cases "is_flood err")
        case True
        then have "downloadChannel n E cl ch off (wait_number E (flood_wait_time err) w3) = Some (r, w')"
          using Suc.prems Some p Inl by (simp add: downloadChannel_Suc)
        from Suc.IH [OF this] show ?thesis
          using run_step_trans [OF e run_step_trans [OF run_step_wait_number]] by blast
      next
        case False
        then have "w' = w3" using Suc.prems Some p Inl by (simp add: downloadChannel_Suc)
        then show ?thesis using e by simp
      qed
    qed
  qed
qed

lemma lastev_take:
  assumes "lastev None (take k evs) = Some e" and "k \<le> length evs"
  shows "0 < k \<and> evs ! (k - 1) = e"
proof -
  have ne: "\<not> (k = 0 \<or> evs = [])"
  proof
    assume "k = 0 \<or> evs = []"
    then have "lastev None (take k evs) = None"
      by (auto simp: lastev_def)
    then show False using assms(1) by simp
  qed
  then have l: "last (take k evs) = evs ! (k - 1)"
    using assms(2) by (simp add: last_conv_nth min_absorb2)
  have "lastev None (take k evs) = Some (last (take k evs))"
    using ne by (simp add: lastev_def)
  then show ?thesis using assms(1) ne l by simp
qed

lemma sched_ok_prefix_facts:
  assumes ok: "sched_ok 0 0 None evs"
  shows "(\<forall>k. starts (take k evs) \<le> settles (take k evs) + MAX_PARALLEL_DOWNLOAD) \<and>
      (\<forall>k < length evs. is_start (evs ! k) \<longrightarrow>
          starts (take k evs) < settles (take k evs) + MAX_PARALLEL_DOWNLOAD \<and>
          settles (take k evs) =
            MAX_PARALLEL_DOWNLOAD * (starts (take k evs) div MAX_PARALLEL_DOWNLOAD) \<and>
          (0 < starts (take k evs) \<and> starts (take k evs) mod MAX_PARALLEL_DOWNLOAD = 0 \<longrightarrow>
             0 < k \<and> (\<exists>j. evs ! (k - 1) = Sleep RATE_LIMIT_DELAY j)))"
proof (intro conjI allI impI)
  fix k
  show "starts (take k evs) \<le> settles (take k evs) + MAX_PARALLEL_DOWNLOAD"
    using sched_ok_bound [OF ok, of k] by simp
next
  fix k assume k: "k < length evs" and st: "is_start (evs ! k)"
  have "starts (take (Suc k) evs) \<le> settles (take (Suc k) evs) + MAX_PARALLEL_DOWNLOAD"
    using sched_ok_bound [OF ok, of "Suc k"] by simp
  moreover have "\<not> is_settle (evs ! k)"
    using st by (cases "evs ! k") simp_all
  ultimately show "starts (take k evs) < settles (take k evs) + MAX_PARALLEL_DOWNLOAD"
    using k st by (simp add: take_Suc_conv_app_nth)
  show "settles (take k evs) =
            MAX_PARALLEL_DOWNLOAD * (starts (take k evs) div MAX_PARALLEL_DOWNLOAD)"
    using sched_ok_at_start [OF ok k st] by simp
next
  fix k assume k: "k < length evs" and st: "is_start (evs ! k)"
    and b: "0 < starts (take k evs) \<and> starts (take k evs) mod MAX_PARALLEL_DOWNLOAD = 0"
  then obtain j where "lastev None (take k evs) = Some (Sleep RATE_LIMIT_DELAY j)"
    using sched_ok_at_start [OF ok k st] by auto
  from lastev_take [OF this] k
  show "0 < k" "\<exists>j. evs ! (k - 1) = Sleep RATE_LIMIT_DELAY j"
    by auto
qed

section \<open>Evaluating concrete runs\<close>

lemmas eval_defs =
  download_stage_def canDownload_def hasMedia_def checkFileExist_def allow_lookup_def js_or_def
  get_property_def plain_object_def Object_prototype_def
  ascii_toLowerCase_def task_start_def checkRateLimit_begin_def checkRateLimit_resume_def task_run_def
  download_fn_def downloadMessageMedia_def download_try_def downloadMedia_def writeFileSync_def
  wait_def emit_def tick_def Let_def
  MAX_PARALLEL_DOWNLOAD_def RATE_LIMIT_DELAY_def DOWNLOAD_DELAY_def MAX_RETRIES_def
  demo_env_def demo_world_def demo_message_def photo_def

lemmas run_defs =
  downloadChannel.simps countTotalMessages_def process_page_def retryWithBackoff_def retry_loop_3
  getMessages_def getMessageDetail_def checkRateLimit_def recordMessages_def
  appendToJSONArrayFile_def
  updateLastSelection_def showProgress_def demo_page_def MESSAGE_LIMIT_def

lemma burst_stage_trace:
  "trace (snd (download_stage burst_env (Some Client) burst_page demo_world)) = burst_trace"
  by (simp add: eval_defs burst_env_def burst_page_def burst_trace_def eval_nat_numeral)

lemma demo_run:
  "map_option (\<lambda>p. (fst p, trace (snd p)))
     (downloadChannel 5 demo_env (Some Client) (ChanNum 7) 0 demo_world) =
   Some (Inr (), demo_run_trace)"
  by (simp add: eval_nat_numeral run_defs eval_defs demo_run_trace_def)


lemma demo_run_cases:
  obtains v' where "downloadChannel 5 demo_env (Some Client) (ChanNum 7) 0 demo_world = Some (Inr (), v')"
    and "trace v' = demo_run_trace"
  using demo_run
  by (cases "downloadChannel 5 demo_env (Some Client) (ChanNum 7) 0 demo_world") auto


section \<open>Eligibility (C3)\<close>

lemma truthy_js_or [simp]: "truthy (js_or a b) \<longleftrightarrow> truthy a \<or> truthy b"
  by (simp add: js_or_def)

lemma truthy_allow_lookup:
  "truthy (allow_lookup w k) \<longleftrightarrow>
     (\<exists>obj. downloadableFiles w = Some obj \<and>
        (case map_of (own_properties obj) k of
           Some v \<Rightarrow> truthy v
         | None \<Rightarrow> (\<exists>v. map_of (inherited_properties obj) k = Some v \<and> truthy v)))"
  by (cases "downloadableFiles w")
     (auto simp: allow_lookup_def get_property_def split: option.splits)

text \<open>
  C3, as amended. \<^verbatim>\<open>canDownload(m)\<close> is truthy, and then it is the boolean \<^verbatim>\<open>true\<close>, iff
  \<open>m\<close> carries media, no file exists at the computed target path, and reading the
  allow-set at the media's type, at the extension of the target path (lower-cased, its
  first dot removed) or at the key \<^verbatim>\<open>all\<close> yields a truthy value. Reading the allow-set at
  a key yields a truthy value iff the allow-set is an object and either the key is an own
  property holding a truthy value, or it is no own property and the object inherits a
  truthy value under it. So being a key is not enough, and it is not necessary either.
\<close>

theorem canDownload_iff:
  "(truthy (canDownload E m w) \<longleftrightarrow>
      hasMedia m \<and> \<not> checkFileExist E m (outputFolder w) w \<and>
      (truthy (allow_lookup w (getMediaType E m)) \<or>
       truthy (allow_lookup w (file_extension E m w)) \<or>
       truthy (allow_lookup w ''all''))) \<and>
   (truthy (canDownload E m w) \<longleftrightarrow> canDownload E m w = JBool True) \<and>
   file_extension E m w =
     remove_first_dot (toLowerCase E (path_extname E (getMediaPath E m (outputFolder w)))) \<and>
   (\<forall>k. truthy (allow_lookup w k) \<longleftrightarrow>
      (\<exists>obj. downloadableFiles w = Some obj \<and>
         (case map_of (own_properties obj) k of
            Some v \<Rightarrow> truthy v
          | None \<Rightarrow> (\<exists>v. map_of (inherited_properties obj) k = Some v \<and> truthy v))))"
proof -
  have falsy: "\<And>v. \<not> truthy v \<Longrightarrow> v \<noteq> JBool True"
    by auto
  have a: "truthy (canDownload E m w) \<longleftrightarrow>
      hasMedia m \<and> \<not> checkFileExist E m (outputFolder w) w \<and>
      (truthy (allow_lookup w (getMediaType E m)) \<or>
       truthy (allow_lookup w (file_extension E m w)) \<or>
       truthy (allow_lookup w ''all''))"
    by (auto simp: canDownload_def file_extension_def Let_def js_or_def)
  have b: "truthy (canDownload E m w) \<longleftrightarrow> canDownload E m w = JBool True"
    by (auto simp: canDownload_def file_extension_def Let_def js_or_def dest: falsy)
  show ?thesis
    using a b truthy_allow_lookup by (simp add: file_extension_def)
qed

text \<open>
  The theorem at a photo with the allow-set \<^verbatim>\<open>{photo: true}\<close>: once where the media type
  is the own key \<^verbatim>\<open>photo\<close>, once where neither the media type \<^verbatim>\<open>document\<close> nor \<^verbatim>\<open>all\<close> is
  a property and the extension \<^verbatim>\<open>constructor\<close> is inherited.
\<close>

theorem canDownload_iff_witness:
  "truthy (canDownload demo_env (demo_message 2 (Some photo)) demo_world) \<and>
   hasMedia (demo_message 2 (Some photo)) \<and>
   \<not> checkFileExist demo_env (demo_message 2 (Some photo)) (outputFolder demo_world) demo_world \<and>
   truthy (allow_lookup demo_world (getMediaType demo_env (demo_message 2 (Some photo)))) \<and>
   canDownload demo_env (demo_message 2 (Some photo)) demo_world = JBool True \<and>
   file_extension inherit_env (demo_message 2 (Some photo)) demo_world = ''constructor'' \<and>
   truthy (allow_lookup demo_world ''constructor'') \<and>
   canDownload inherit_env (demo_message 2 (Some photo)) demo_world = JBool True"
proof -
  let ?m = "demo_message 2 (Some photo)"
  have h: "hasMedia ?m"
    by (simp add: hasMedia_def demo_message_def)
  have f: "\<not> checkFileExist demo_env ?m (outputFolder demo_world) demo_world"
    "\<not> checkFileExist inherit_env ?m (outputFolder demo_world) demo_world"
    by (simp_all add: checkFileExist_def demo_world_def)
  have t: "truthy (allow_lookup demo_world (getMediaType demo_env ?m))"
    by (simp add: allow_lookup_def get_property_def plain_object_def demo_world_def demo_env_def)
  have e: "file_extension inherit_env ?m demo_world = ''constructor''"
    by (simp add: file_extension_def inherit_env_def demo_env_def ascii_toLowerCase_def)
  have c: "truthy (allow_lookup demo_world ''constructor'')"
    by (simp add: allow_lookup_def get_property_def plain_object_def Object_prototype_def
          demo_world_def)
  note i1 = canDownload_iff [of demo_env ?m demo_world]
  note i2 = canDownload_iff [of inherit_env ?m demo_world]
  have c1: "truthy (canDownload demo_env ?m demo_world)"
    using i1 [THEN conjunct1] h f(1) t by blast
  have c2: "canDownload demo_env ?m demo_world = JBool True"
    using i1 [THEN conjunct2, THEN conjunct1] c1 by blast
  have c3: "truthy (canDownload inherit_env ?m demo_world)"
    using i2 [THEN conjunct1] h f(2) c e by simp
  have c4: "canDownload inherit_env ?m demo_world = JBool True"
    using i2 [THEN conjunct2, THEN conjunct1] c3 by blast
  show ?thesis
    by (intro conjI) (rule c1, rule h, rule f(1), rule t, rule c2, rule e, rule c, rule c4)
qed

text \<open>
  The claim as stated fails in both directions. With the allow-set \<^verbatim>\<open>{photo: false}\<close> the
  media type of the message is a key of the allow-set, the message has media and no file
  exists, yet \<^verbatim>\<open>canDownload\<close> is not truthy. With the allow-set \<^verbatim>\<open>{photo: true}\<close>, the
  media type \<^verbatim>\<open>document\<close> and the extension \<^verbatim>\<open>constructor\<close>, none of the three keys is a
  key of the allow-set, yet \<^verbatim>\<open>canDownload\<close> is \<^verbatim>\<open>true\<close>.
\<close>

theorem canDownload_key_without_truth_counterexample:
  "\<not> (truthy (canDownload demo_env (demo_message 2 (Some photo)) flagged_world) \<longleftrightarrow>
        eligible_spec demo_env (demo_message 2 (Some photo)) flagged_world) \<and>
   \<not> (truthy (canDownload inherit_env (demo_message 2 (Some photo)) demo_world) \<longleftrightarrow>
        eligible_spec inherit_env (demo_message 2 (Some photo)) demo_world)"
  by (simp add: canDownload_def eligible_spec_def allow_keys_def file_extension_def hasMedia_def
        checkFileExist_def allow_lookup_def get_property_def plain_object_def Object_prototype_def
        js_or_def flagged_world_def demo_world_def demo_env_def inherit_env_def
        demo_message_def ascii_toLowerCase_def)

section \<open>The rate-limit gate (C6)\<close>

lemma spaced_world_eq:
  "spaced_world = demo_world\<lparr>requestCount := 11, lastRequestTime := 1100000, ticks := 11,
      trace := [Requested 100000, Requested 200000, Requested 300000, Requested 400000,
                Requested 500000, Requested 600000, Requested 700000, Requested 800000,
                Requested 900000, Requested 1000000, Requested 1100000]\<rparr>"
  by (simp add: spaced_world_def eval_nat_numeral checkRateLimit_def Let_def tick_def emit_def
        spaced_env_def demo_world_def)

text \<open>
  C6, as amended. A call of \<^verbatim>\<open>checkRateLimit\<close> made when the request counter exceeds 10 and
  less than 60000 ms have passed since the time stamp of the last recorded request starts
  one timer of 60000 ms plus jitter, resets the counter to 0 and then records the request,
  so that the counter is 1 when the gate returns; every other call starts no timer and
  records the request. In both cases the recorded time stamp is the time at which the
  call began.
\<close>

theorem checkRateLimit_gate:
  "(requestCount w > 10 \<and> date_now E (ticks w) - lastRequestTime w < 60000 \<longrightarrow>
      trace (checkRateLimit E w) =
        trace w @ [Sleep 60000 (math_random E (Suc (ticks w)) * 1000),
                   Requested (date_now E (ticks w))] \<and>
      requestCount (checkRateLimit E w) = 1 \<and>
      lastRequestTime (checkRateLimit E w) = date_now E (ticks w)) \<and>
   (\<not> (requestCount w > 10 \<and> date_now E (ticks w) - lastRequestTime w < 60000) \<longrightarrow>
      trace (checkRateLimit E w) = trace w @ [Requested (date_now E (ticks w))] \<and>
      requestCount (checkRateLimit E w) = requestCount w + 1 \<and>
      lastRequestTime (checkRateLimit E w) = date_now E (ticks w))"
  by (simp add: checkRateLimit_def Let_def)

theorem checkRateLimit_gate_witness:
  "requestCount spaced_world > 10 \<and>
   date_now spaced_env (ticks spaced_world) - lastRequestTime spaced_world < 60000 \<and>
   trace (checkRateLimit spaced_env spaced_world) =
     trace spaced_world @ [Sleep 60000 500, Requested 1101000] \<and>
   requestCount (checkRateLimit spaced_env spaced_world) = 1 \<and>
   \<not> (requestCount demo_world > 10 \<and>
       date_now spaced_env (ticks demo_world) - lastRequestTime demo_world < 60000) \<and>
   trace (checkRateLimit spaced_env demo_world) = trace demo_world @ [Requested 100000] \<and>
   requestCount (checkRateLimit spaced_env demo_world) = 1"
  using checkRateLimit_gate [of spaced_world spaced_env] checkRateLimit_gate [of demo_world spaced_env]
  by (simp add: spaced_world_eq spaced_env_def demo_env_def demo_world_def)

text \<open>
  The claim as stated fails after eleven requests spaced one hundred seconds apart: a
  single request lies within the 60 seconds before the twelfth call, not more than 10,
  and the call is suspended for 60 seconds all the same.
\<close>

theorem checkRateLimit_window_counterexample:
  "issued_in_window (trace spaced_world) (date_now spaced_env (ticks spaced_world)) = 1 \<and>
   trace (checkRateLimit spaced_env spaced_world) =
     trace spaced_world @ [Sleep 60000 500, Requested 1101000]"
  by (simp add: spaced_world_eq issued_in_window_def checkRateLimit_def Let_def tick_def emit_def
        wait_def spaced_env_def demo_env_def demo_world_def)

section \<open>Missing arguments (C8)\<close>

text \<open>
  C8, as amended. \<^verbatim>\<open>getMessages\<close> and \<^verbatim>\<open>getMessageDetail\<close> called with a missing client, a
  missing channel handle or (for the second) missing message ids throw at once, with no
  call of the client and no other effect; \<^verbatim>\<open>downloadMessageMedia\<close> called with a missing
  client, message or media path does not throw: it resolves with \<^verbatim>\<open>false\<close>, again with no
  other effect.
\<close>

theorem missing_argument_handling:
  "(cl = None \<or> \<not> chan_truthy channelId \<longrightarrow>
      getMessages E cl channelId limit offsetId w =
        (Inl (Error ''Client and channelId are required''), w)) \<and>
   (cl = None \<or> \<not> chan_truthy channelId \<or> messageIds = None \<longrightarrow>
      getMessageDetail E cl channelId messageIds w =
        (Inl (Error ''Client, channelId, and messageIds are required''), w)) \<and>
   (cl = None \<or> msg = None \<or> mediaPath = None \<or> mediaPath = Some [] \<longrightarrow>
      downloadMessageMedia E cl msg mediaPath w = (Inr False, w))"
proof (intro conjI impI)
  assume "cl = None \<or> \<not> chan_truthy channelId"
  then show "getMessages E cl channelId limit offsetId w =
        (Inl (Error ''Client and channelId are required''), w)"
    by (auto simp: getMessages_def)
next
  assume "cl = None \<or> \<not> chan_truthy channelId \<or> messageIds = None"
  then show "getMessageDetail E cl channelId messageIds w =
        (Inl (Error ''Client, channelId, and messageIds are required''), w)"
    by (cases messageIds) (auto simp: getMessageDetail_def)
next
  assume "cl = None \<or> msg = None \<or> mediaPath = None \<or> mediaPath = Some []"
  then show "downloadMessageMedia E cl msg mediaPath w = (Inr False, w)"
    by (cases cl; cases msg; cases mediaPath) (auto simp: downloadMessageMedia_def)
qed

theorem missing_argument_handling_witness:
  "getMessages demo_env None ChanUndefined 10 0 demo_world =
     (Inl (Error ''Client and channelId are required''), demo_world) \<and>
   getMessageDetail demo_env (Some Client) (ChanNum 7) None demo_world =
     (Inl (Error ''Client, channelId, and messageIds are required''), demo_world) \<and>
   downloadMessageMedia demo_env None (Some (demo_message 2 (Some photo))) (Some ''p'') demo_world =
     (Inr False, demo_world)"
  using missing_argument_handling
          [where cl = None and channelId = ChanUndefined and E = demo_env and limit = 10
             and offsetId = 0 and w = demo_world and messageIds = None
             and msg = "Some (demo_message 2 (Some photo))" and mediaPath = "Some ''p''"]
        missing_argument_handling
          [where cl = "Some Client" and channelId = "ChanNum 7" and E = demo_env
             and w = demo_world and messageIds = None]
  by simp

text \<open>
  The claim as stated fails for \<^verbatim>\<open>downloadMessageMedia\<close>: called without a client it
  raises no error; its promise resolves with \<^verbatim>\<open>false\<close>.
\<close>

theorem downloadMessageMedia_missing_client_counterexample:
  "downloadMessageMedia demo_env None (Some (demo_message 2 (Some photo)))
     (Some ''export/7/photo/2.jpg'') demo_world = (Inr False, demo_world)"
  by (simp add: downloadMessageMedia_def)

section \<open>Media downloads never reject (C9)\<close>

lemmas sidecar_defs =
  url_write_error_def poll_write_error_def media_download_error_def
  writes_url_def urlPath_def pollPath_def redirected_def

lemma download_try_result:
  assumes md: "msg_media m = Some md"
  shows "fst (download_try E m path w) =
     (case url_write_error E m md path w of
        Some err \<Rightarrow> Inl err
      | None \<Rightarrow>
         (case poll_write_error E m md path w of
            Some err \<Rightarrow> Inl err
          | None \<Rightarrow>
             (case media_download_error E m md path w of
                Some err \<Rightarrow> Inl err
              | None \<Rightarrow> Inr True)))"
proof (cases "writes_url md")
  case False
  then have w: "(case md_webpage md of
                  None \<Rightarrow> (Inr (), path, w)
                | Some wp \<Rightarrow>
                   (let (r, w') =
                          (case wp_url wp of
                             None \<Rightarrow> (Inr (), w)
                           | Some url \<Rightarrow>
                               if url = [] then (Inr (), w)
                               else writeFileSync E
                                      (path_join E path (''../'' @ id_str E (msg_id m) @ ''_url.txt''))
                                      url w)
                    in (r, path_join E path (''../'' @ wp_id wp @ ''_image.jpeg''), w'))) =
             (Inr (), redirected E md path, w)"
    by (auto simp: writes_url_def redirected_def split: option.splits)
  show ?thesis
  proof (cases "md_poll md")
    case None
    then show ?thesis
      using md False
      by (simp add: download_try_def w url_write_error_def poll_write_error_def
            media_download_error_def downloadMedia_def Let_def split: option.splits)
  next
    case (Some pl)
    then show ?thesis
      using md False
      by (simp add: download_try_def w url_write_error_def poll_write_error_def pollPath_def
            media_download_error_def downloadMedia_def writeFileSync_def Let_def
          split: option.splits)
  qed
next
  case True
  then obtain wp url where wp: "md_webpage md = Some wp" "wp_url wp = Some url" "url \<noteq> []"
    by (auto simp: writes_url_def split: option.splits)
  show ?thesis
  proof (cases "fs_writeFileSync E (ticks w) (urlPath E m path)")
    case (Some err)
    then show ?thesis
      using md True wp
      by (simp add: download_try_def url_write_error_def urlPath_def writeFileSync_def)
  next
    case None
    note u = this
    show ?thesis
    proof (cases "md_poll md")
      case None
      then show ?thesis
        using md True wp u
        by (simp add: download_try_def url_write_error_def poll_write_error_def urlPath_def
              redirected_def media_download_error_def downloadMedia_def writeFileSync_def Let_def
            split: option.splits)
    next
      case (Some pl)
      then show ?thesis
        using md True wp u
        by (simp add: download_try_def url_write_error_def poll_write_error_def urlPath_def
              pollPath_def redirected_def media_download_error_def downloadMedia_def
              writeFileSync_def Let_def
            split: option.splits)
    qed
  qed
qed


lemma downloadMessageMedia_result:
  assumes "cl \<noteq> None" and "path \<noteq> []" and "msg_media m = Some md"
  shows "fst (downloadMessageMedia E cl (Some m) (Some path) w) =
           Inr (url_write_error E m md path w = None \<and>
                poll_write_error E m md path w = None \<and>
                media_download_error E m md path w = None)"
proof -
  obtain c where c: "cl = Some c" using assms(1) by (cases cl) auto
  have "fst (downloadMessageMedia E cl (Some m) (Some path) w) =
          (case fst (download_try E m path w) of Inl err \<Rightarrow> Inr False | Inr b \<Rightarrow> Inr b)"
    using c assms(2)
    by (cases "download_try E m path w"; cases "fst (download_try E m path w)")
       (simp_all add: downloadMessageMedia_def)
  then show ?thesis
    unfolding download_try_result [OF assms(3)]
    by (simp split: option.splits)
qed

lemma downloadMessageMedia_no_media:
  "msg_media m = None \<Longrightarrow> downloadMessageMedia E cl (Some m) p w = (Inr False, w)"
  by (cases cl; cases p) (simp_all add: downloadMessageMedia_def download_try_def)

lemma downloadMessageMedia_missing:
  "cl = None \<or> msg = None \<or> p = None \<or> p = Some [] \<Longrightarrow>
     downloadMessageMedia E cl msg p w = (Inr False, w)"
  by (cases cl; cases msg; cases p) (auto simp: downloadMessageMedia_def)

text \<open>
  C9. \<^verbatim>\<open>downloadMessageMedia\<close> never throws: for every input and every behaviour of the
  client and the file system its promise resolves with a boolean. With a missing
  argument, and for a message without media, it resolves with \<^verbatim>\<open>false\<close> and does nothing
  else. For a message with media it resolves with \<^verbatim>\<open>true\<close> when neither the write of the
  URL file, nor the write of the poll file, nor the download of the client raises an
  error, and with \<^verbatim>\<open>false\<close> when one of them does. The join of a queue of download tasks
  never rejects.
\<close>

theorem downloadMessageMedia_never_throws:
  "(\<exists>b. fst (downloadMessageMedia E cl msg p w) = Inr b) \<and>
   (cl = None \<or> msg = None \<or> p = None \<or> p = Some [] \<longrightarrow>
      downloadMessageMedia E cl msg p w = (Inr False, w)) \<and>
   (\<forall>m. msg = Some m \<and> msg_media m = None \<longrightarrow>
      downloadMessageMedia E cl msg p w = (Inr False, w)) \<and>
   (\<forall>m md path.
      cl \<noteq> None \<and> msg = Some m \<and> p = Some path \<and> path \<noteq> [] \<and> msg_media m = Some md \<longrightarrow>
      fst (downloadMessageMedia E cl msg p w) =
        Inr (url_write_error E m md path w = None \<and>
             poll_write_error E m md path w = None \<and>
             media_download_error E m md path w = None)) \<and>
   fst (join_all E cl q w) = Inr ()"
proof (intro conjI allI impI)
  show "\<exists>b. fst (downloadMessageMedia E cl msg p w) = Inr b"
    by (rule downloadMessageMedia_resolves)
  show "fst (join_all E cl q w) = Inr ()"
    by (rule join_all_never_rejects)
next
  assume "cl = None \<or> msg = None \<or> p = None \<or> p = Some []"
  then show "downloadMessageMedia E cl msg p w = (Inr False, w)"
    by (rule downloadMessageMedia_missing)
next
  fix m assume "msg = Some m \<and> msg_media m = None"
  then show "downloadMessageMedia E cl msg p w = (Inr False, w)"
    by (simp add: downloadMessageMedia_no_media)
next
  fix m md path
  assume "cl \<noteq> None \<and> msg = Some m \<and> p = Some path \<and> path \<noteq> [] \<and> msg_media m = Some md"
  then show "fst (downloadMessageMedia E cl msg p w) =
        Inr (url_write_error E m md path w = None \<and>
             poll_write_error E m md path w = None \<and>
             media_download_error E m md path w = None)"
    using downloadMessageMedia_result [of cl path m md E w] by simp
qed

text \<open>
  The theorem at a call without a client, at a message without media, at a photo whose
  download succeeds and at one whose download fails, at a poll and at a webpage whose
  sidecar file cannot be written, and at the join of a task whose download fails.
\<close>

theorem downloadMessageMedia_never_throws_witness:
  "downloadMessageMedia demo_env None (Some (demo_message 2 (Some photo))) (Some ''p'') demo_world =
     (Inr False, demo_world) \<and>
   downloadMessageMedia demo_env (Some Client) (Some (demo_message 1 None)) (Some ''p'') demo_world =
     (Inr False, demo_world) \<and>
   fst (downloadMessageMedia demo_env (Some Client) (Some (demo_message 2 (Some photo))) (Some ''p'')
          demo_world) = Inr True \<and>
   media_download_error failing_env (demo_message 2 (Some photo)) photo ''p'' demo_world =
     Some (Error ''timeout'') \<and>
   fst (downloadMessageMedia failing_env (Some Client) (Some (demo_message 2 (Some photo))) (Some ''p'')
          demo_world) = Inr False \<and>
   poll_write_error readonly_env poll_message \<lparr>md_webpage = None, md_poll = Some (Poll ''q'')\<rparr> ''p''
     demo_world = Some (Error ''EACCES'') \<and>
   fst (downloadMessageMedia readonly_env (Some Client) (Some poll_message) (Some ''p'') demo_world) =
     Inr False \<and>
   url_write_error readonly_env webpage_message
     \<lparr>md_webpage = Some \<lparr>wp_url = Some ''http://a'', wp_id = ''9''\<rparr>, md_poll = None\<rparr> ''p''
     demo_world = Some (Error ''EACCES'') \<and>
   fst (downloadMessageMedia readonly_env (Some Client) (Some webpage_message) (Some ''p'') demo_world) =
     Inr False \<and>
   fst (join_all failing_env (Some Client) [Task (demo_message 2 (Some photo)) GateOpen] demo_world) =
     Inr ()"
proof -
  let ?m2 = "demo_message 2 (Some photo)"
  let ?pm = "\<lparr>md_webpage = None, md_poll = Some (Poll ''q'')\<rparr>"
  let ?wm = "\<lparr>md_webpage = Some \<lparr>wp_url = Some ''http://a'', wp_id = ''9''\<rparr>, md_poll = None\<rparr>"
  note a = downloadMessageMedia_never_throws
             [where E = demo_env and cl = None and msg = "Some ?m2" and p = "Some ''p''"
                and w = demo_world]
  have c1: "downloadMessageMedia demo_env None (Some ?m2) (Some ''p'') demo_world = (Inr False, demo_world)"
    using a [THEN conjunct2, THEN conjunct1] by simp
  note b = downloadMessageMedia_never_throws
             [where E = demo_env and cl = "Some Client" and msg = "Some (demo_message 1 None)"
                and p = "Some ''p''" and w = demo_world]
  have c2: "downloadMessageMedia demo_env (Some Client) (Some (demo_message 1 None)) (Some ''p'')
              demo_world = (Inr False, demo_world)"
    using b [THEN conjunct2, THEN conjunct2, THEN conjunct1, rule_format, of "demo_message 1 None"]
    by (simp add: demo_message_def)
  have h: "Some Client \<noteq> None \<and> Some ?m2 = Some ?m2 \<and> Some ''p'' = Some ''p'' \<and> ''p'' \<noteq> [] \<and>
           msg_media ?m2 = Some photo"
    by (simp add: demo_message_def)
  note c = downloadMessageMedia_never_throws
             [where E = demo_env and cl = "Some Client" and msg = "Some ?m2" and p = "Some ''p''"
                and w = demo_world,
              THEN conjunct2, THEN conjunct2, THEN conjunct2, THEN conjunct1, rule_format, OF h]
  have c3: "fst (downloadMessageMedia demo_env (Some Client) (Some ?m2) (Some ''p'') demo_world) = Inr True"
    using c by (simp add: sidecar_defs photo_def demo_env_def)
  note d = downloadMessageMedia_never_throws
             [where E = failing_env and cl = "Some Client" and msg = "Some ?m2" and p = "Some ''p''"
                and w = demo_world and q = "[Task ?m2 GateOpen]"]
  have c4: "media_download_error failing_env ?m2 photo ''p'' demo_world = Some (Error ''timeout'')"
    by (simp add: media_download_error_def failing_env_def)
  have c5: "fst (downloadMessageMedia failing_env (Some Client) (Some ?m2) (Some ''p'') demo_world) =
              Inr False"
    using d [THEN conjunct2, THEN conjunct2, THEN conjunct2, THEN conjunct1, rule_format, OF h]
    by (simp add: c4)
  have c10: "fst (join_all failing_env (Some Client) [Task ?m2 GateOpen] demo_world) = Inr ()"
    by (rule d [THEN conjunct2, THEN conjunct2, THEN conjunct2, THEN conjunct2])
  have hp: "Some Client \<noteq> None \<and> Some poll_message = Some poll_message \<and> Some ''p'' = Some ''p'' \<and>
            ''p'' \<noteq> [] \<and> msg_media poll_message = Some ?pm"
    by (simp add: poll_message_def demo_message_def)
  have c6: "poll_write_error readonly_env poll_message ?pm ''p'' demo_world = Some (Error ''EACCES'')"
    by (simp add: poll_write_error_def readonly_env_def)
  have c7: "fst (downloadMessageMedia readonly_env (Some Client) (Some poll_message) (Some ''p'')
                   demo_world) = Inr False"
    using downloadMessageMedia_never_throws
             [where E = readonly_env and cl = "Some Client" and msg = "Some poll_message"
                and p = "Some ''p''" and w = demo_world,
              THEN conjunct2, THEN conjunct2, THEN conjunct2, THEN conjunct1, rule_format, OF hp]
    by (simp add: c6)
  have hw: "Some Client \<noteq> None \<and> Some webpage_message = Some webpage_message \<and>
            Some ''p'' = Some ''p'' \<and> ''p'' \<noteq> [] \<and> msg_media webpage_message = Some ?wm"
    by (simp add: webpage_message_def demo_message_def)
  have c8: "url_write_error readonly_env webpage_message ?wm ''p'' demo_world = Some (Error ''EACCES'')"
    by (simp add: url_write_error_def writes_url_def readonly_env_def)
  have c9: "fst (downloadMessageMedia readonly_env (Some Client) (Some webpage_message) (Some ''p'')
                   demo_world) = Inr False"
    using downloadMessageMedia_never_throws
             [where E = readonly_env and cl = "Some Client" and msg = "Some webpage_message"
                and p = "Some ''p''" and w = demo_world,
              THEN conjunct2, THEN conjunct2, THEN conjunct2, THEN conjunct1, rule_format, OF hw]
    by (simp add: c8)
  show ?thesis
    by (intro conjI) (rule c1, rule c2, rule c3, rule c4, rule c5, rule c6, rule c7, rule c8,
                      rule c9, rule c10)
qed

section \<open>The backoff schedule (C5)\<close>

text \<open>
  C5. \<^verbatim>\<open>retryWithBackoff\<close> with the default of 3 attempts calls the operation at most
  three times, each time behind the rate-limit gate; after the failed attempt \<open>i\<close> with
  attempts remaining it waits \<open>backoffDelay i = 1000 * 2 ^ i\<close> ms, to which \<^verbatim>\<open>wait\<close> adds
  a jitter of \<^verbatim>\<open>Math.random() * 1000\<close> ms (between 0 and 1000 for a random number in
  \<open>[0, 1)\<close>), so that each delay is twice the one before; the failure of the last attempt is
  thrown unchanged. The last conjunct is the step of the loop for any number of attempts.
\<close>

theorem retryWithBackoff_schedule:
  fixes fn :: "world \<Rightarrow> (error + 'a) \<times> world"
  shows
  "retryWithBackoff E fn MAX_RETRIES w =
     (case fn (checkRateLimit E w) of
        (Inr v, w1) \<Rightarrow> (Inr (Some v), w1)
      | (Inl err0, w1) \<Rightarrow>
         (case fn (checkRateLimit E (wait E (backoffDelay 0) w1)) of
            (Inr v, w2) \<Rightarrow> (Inr (Some v), w2)
          | (Inl err1, w2) \<Rightarrow>
             (case fn (checkRateLimit E (wait E (backoffDelay 1) w2)) of
                (Inr v, w3) \<Rightarrow> (Inr (Some v), w3)
              | (Inl err2, w3) \<Rightarrow> (Inl err2, w3)))) \<and>
   backoffDelay 0 = 1000 \<and>
   (\<forall>i. 0 \<le> i \<longrightarrow> backoffDelay i = 1000 * 2 ^ nat i \<and> backoffDelay (i + 1) = 2 * backoffDelay i) \<and>
   (\<forall>ms v. trace (wait E ms v) = trace v @ [Sleep ms (math_random E (ticks v) * 1000)] \<and>
           (0 \<le> math_random E (ticks v) \<and> math_random E (ticks v) < 1 \<longrightarrow>
              0 \<le> math_random E (ticks v) * 1000 \<and> math_random E (ticks v) * 1000 < 1000)) \<and>
   (\<forall>retries i err v. i < retries \<and> fn (checkRateLimit E w) = (Inl err, v) \<longrightarrow>
      retry_loop E fn retries i w =
        (if i = retries - 1 then (Inl err, v)
         else retry_loop E fn retries (i + 1) (wait E (backoffDelay i) v)))"
proof (intro conjI allI impI)
  show "retryWithBackoff E fn MAX_RETRIES w =
     (case fn (checkRateLimit E w) of
        (Inr v, w1) \<Rightarrow> (Inr (Some v), w1)
      | (Inl err0, w1) \<Rightarrow>
         (case fn (checkRateLimit E (wait E (backoffDelay 0) w1)) of
            (Inr v, w2) \<Rightarrow> (Inr (Some v), w2)
          | (Inl err1, w2) \<Rightarrow>
             (case fn (checkRateLimit E (wait E (backoffDelay 1) w2)) of
                (Inr v, w3) \<Rightarrow> (Inr (Some v), w3)
              | (Inl err2, w3) \<Rightarrow> (Inl err2, w3))))"
    by (simp only: retryWithBackoff_def MAX_RETRIES_def retry_loop_3)
  show "backoffDelay 0 = 1000"
    by (simp add: backoffDelay_def BACKOFF_BASE_def)
  fix i :: int assume "0 \<le> i"
  then show "backoffDelay i = 1000 * 2 ^ nat i" "backoffDelay (i + 1) = 2 * backoffDelay i"
    by (simp_all add: backoffDelay_def BACKOFF_BASE_def nat_add_distrib)
next
  fix ms v
  show "trace (wait E ms v) = trace v @ [Sleep ms (math_random E (ticks v) * 1000)]"
    by simp
  assume "0 \<le> math_random E (ticks v) \<and> math_random E (ticks v) < 1"
  then show "0 \<le> math_random E (ticks v) * 1000" "math_random E (ticks v) * 1000 < 1000"
    by simp_all
next
  fix retries i :: int and err v
  assume "i < retries \<and> fn (checkRateLimit E w) = (Inl err, v)"
  then show "retry_loop E fn retries i w =
        (if i = retries - 1 then (Inl err, v)
         else retry_loop E fn retries (i + 1) (wait E (backoffDelay i) v))"
    by (subst retry_loop.simps) simp
qed

theorem retryWithBackoff_schedule_witness:
  "fst (retryWithBackoff demo_env (getMessages demo_env None ChanUndefined 10 0) MAX_RETRIES demo_world) =
     Inl (Error ''Client and channelId are required'') \<and>
   trace (snd (retryWithBackoff demo_env (getMessages demo_env None ChanUndefined 10 0) MAX_RETRIES demo_world)) =
     [Requested 1000000, Sleep 1000 500, Requested 1000002, Sleep 2000 500, Requested 1000004] \<and>
   backoffDelay 1 = 2 * backoffDelay 0"
  using retryWithBackoff_schedule [of demo_env "getMessages demo_env None ChanUndefined 10 0" demo_world]
  by (simp add: getMessages_def checkRateLimit_def Let_def demo_env_def demo_world_def)

section \<open>The end of the history (C7)\<close>

lemma process_page_empty:
  assumes "retryWithBackoff E (getMessages E cl channelId MESSAGE_LIMIT offsetMsgId) MAX_RETRIES w1 = (Inr (Some []), w2)"
  shows "process_page E cl channelId offsetMsgId w1 = (Inr None, showProgress 0 0 w2)"
  using assms by (simp add: process_page_def)

lemma page_fetch_3:
  "retryWithBackoff demo_env (getMessages demo_env (Some Client) (ChanNum 7) MESSAGE_LIMIT 3) MAX_RETRIES
      (demo_world\<lparr>outputFolder := Some (export_folder demo_env (ChanNum 7))\<rparr>) =
   (Inr (Some []), snd (retryWithBackoff demo_env (getMessages demo_env (Some Client) (ChanNum 7) MESSAGE_LIMIT 3) MAX_RETRIES
      (demo_world\<lparr>outputFolder := Some (export_folder demo_env (ChanNum 7))\<rparr>)))"
  by (simp add: retryWithBackoff_def MAX_RETRIES_def retry_loop_3 getMessages_def demo_env_def)

text \<open>
  C7. For every cursor: when the counting pass (run only for cursor 0) has finished and
  the page fetch returns an empty page, \<^verbatim>\<open>downloadChannel\<close> returns after its progress
  report; the export log and the persisted selection are what they were when it was
  called, and between the call and the report the trace holds only timers, recorded
  requests and calls of \<^verbatim>\<open>client.getMessages\<close>: no download task is started.
\<close>

theorem empty_page_terminates:
  assumes "channelId \<noteq> ChanUndefined"
    and "(if offsetMsgId = 0
          then countTotalMessages n E cl channelId (w\<lparr>outputFolder := Some (export_folder E channelId)\<rparr>)
          else Some (w\<lparr>outputFolder := Some (export_folder E channelId)\<rparr>)) = Some w1"
    and "retryWithBackoff E (getMessages E cl channelId MESSAGE_LIMIT offsetMsgId) MAX_RETRIES w1 =
           (Inr (Some []), w2)"
  shows "downloadChannel (Suc n) E cl channelId offsetMsgId w = Some (Inr (), showProgress 0 0 w2) \<and>
         exportLog (showProgress 0 0 w2) = exportLog w \<and>
         lastSelection (showProgress 0 0 w2) = lastSelection w \<and>
         (\<exists>evs. trace (showProgress 0 0 w2) = trace w @ evs @ [Progress 0 0] \<and>
                list_all fetch_event evs)"
proof -
  let ?w0 = "w\<lparr>outputFolder := Some (export_folder E channelId)\<rparr>"
  have tb: "try_block n E cl channelId offsetMsgId w = Some (Inr (), showProgress 0 0 w2)"
    using assms(1,2) process_page_empty [OF assms(3)]
    by (simp add: try_block_def split: if_splits)
  have run: "downloadChannel (Suc n) E cl channelId offsetMsgId w = Some (Inr (), showProgress 0 0 w2)"
    by (simp add: downloadChannel_Suc tb)
  have a: "ext_by fetch_event ?w0 w1"
  proof (cases "offsetMsgId = 0")
    case True
    then show ?thesis using assms(2) ext_by_countTotalMessages by simp
  next
    case False
    then show ?thesis using assms(2) by auto
  qed
  have b: "ext_by fetch_event w1 w2"
    using ext_by_retry_getMessages [of w1 E cl channelId MESSAGE_LIMIT offsetMsgId MAX_RETRIES] assms(3)
    by simp
  have c: "ext_by fetch_event ?w0 w2"
    by (rule ext_by_trans [OF a b])
  then obtain evs where evs: "trace w2 = trace ?w0 @ evs" "list_all fetch_event evs"
    unfolding ext_by_def by blast
  have "trace (showProgress 0 0 w2) = trace w @ evs @ [Progress 0 0]"
    using evs by (simp add: showProgress_def)
  moreover have "exportLog (showProgress 0 0 w2) = exportLog w"
    "lastSelection (showProgress 0 0 w2) = lastSelection w"
    using c by (simp_all add: showProgress_def ext_by_def)
  ultimately show ?thesis using run evs(2) by blast
qed

theorem empty_page_terminates_witness:
  "ChanNum 7 \<noteq> ChanUndefined \<and>
   (\<exists>w1 w2.
      (if (3::int) = 0
       then countTotalMessages 0 demo_env (Some Client) (ChanNum 7)
              (demo_world\<lparr>outputFolder := Some (export_folder demo_env (ChanNum 7))\<rparr>)
       else Some (demo_world\<lparr>outputFolder := Some (export_folder demo_env (ChanNum 7))\<rparr>)) = Some w1 \<and>
      retryWithBackoff demo_env (getMessages demo_env (Some Client) (ChanNum 7) MESSAGE_LIMIT 3)
        MAX_RETRIES w1 = (Inr (Some []), w2) \<and>
      downloadChannel (Suc 0) demo_env (Some Client) (ChanNum 7) 3 demo_world =
        Some (Inr (), showProgress 0 0 w2) \<and>
      exportLog (showProgress 0 0 w2) = exportLog demo_world \<and>
      lastSelection (showProgress 0 0 w2) = lastSelection demo_world)"
proof -
  let ?w1 = "demo_world\<lparr>outputFolder := Some (export_folder demo_env (ChanNum 7))\<rparr>"
  let ?w2 = "snd (retryWithBackoff demo_env (getMessages demo_env (Some Client) (ChanNum 7) MESSAGE_LIMIT 3)
               MAX_RETRIES ?w1)"
  have h1: "ChanNum 7 \<noteq> ChanUndefined" by simp
  have h2: "(if (3::int) = 0
       then countTotalMessages 0 demo_env (Some Client) (ChanNum 7) ?w1
       else Some ?w1) = Some ?w1" by simp
  show ?thesis
    using empty_page_terminates [OF h1 h2 page_fetch_3] h1 h2 page_fetch_3 by blast
qed

section \<open>Flood control (C2)\<close>






















section \<open>Scheduling (C4)\<close>

text \<open>
  C4. In the trace of the download stage of a page (the loop over the detail records and
  the join of the remaining queue), at every point at most \<open>MAX_PARALLEL_DOWNLOAD\<close> = 12
  tasks have started and not settled. When a task starts, fewer than 12 are unsettled and
  the tasks settled so far are exactly those of the full batches of 12 started before it,
  so that no task of a later batch starts before every task of the earlier ones has
  settled; the first task of a later batch starts right after the \<open>RATE_LIMIT_DELAY\<close> timer
  of 1000 ms; and at the end of the stage every started task has settled. The bound holds
  along the whole trace of every run of \<^verbatim>\<open>downloadChannel\<close> that ends.
\<close>

theorem scheduler_bound_and_barrier:
  "(\<exists>evs. trace (snd (download_stage E cl details w)) = trace w @ evs \<and>
      (\<forall>k. starts (take k evs) \<le> settles (take k evs) + MAX_PARALLEL_DOWNLOAD) \<and>
      (\<forall>k < length evs. is_start (evs ! k) \<longrightarrow>
          starts (take k evs) < settles (take k evs) + MAX_PARALLEL_DOWNLOAD \<and>
          settles (take k evs) =
            MAX_PARALLEL_DOWNLOAD * (starts (take k evs) div MAX_PARALLEL_DOWNLOAD) \<and>
          (0 < starts (take k evs) \<and> starts (take k evs) mod MAX_PARALLEL_DOWNLOAD = 0 \<longrightarrow>
             0 < k \<and> (\<exists>j. evs ! (k - 1) = Sleep RATE_LIMIT_DELAY j))) \<and>
      starts evs = settles evs) \<and>
   (downloadChannel n E cl channelId offsetMsgId v = Some (r, v') \<longrightarrow>
      (\<exists>evs. trace v' = trace v @ evs \<and>
         (\<forall>k. starts (take k evs) \<le> settles (take k evs) + MAX_PARALLEL_DOWNLOAD)))"
proof (intro conjI impI)
  obtain evs where e: "trace (snd (download_stage E cl details w)) = trace w @ evs"
      "sched_ok 0 0 None evs" "starts evs = settles evs"
    using download_stage_step [of E cl details w] by blast
  show "\<exists>evs. trace (snd (download_stage E cl details w)) = trace w @ evs \<and>
      (\<forall>k. starts (take k evs) \<le> settles (take k evs) + MAX_PARALLEL_DOWNLOAD) \<and>
      (\<forall>k < length evs. is_start (evs ! k) \<longrightarrow>
          starts (take k evs) < settles (take k evs) + MAX_PARALLEL_DOWNLOAD \<and>
          settles (take k evs) =
            MAX_PARALLEL_DOWNLOAD * (starts (take k evs) div MAX_PARALLEL_DOWNLOAD) \<and>
          (0 < starts (take k evs) \<and> starts (take k evs) mod MAX_PARALLEL_DOWNLOAD = 0 \<longrightarrow>
             0 < k \<and> (\<exists>j. evs ! (k - 1) = Sleep RATE_LIMIT_DELAY j))) \<and>
      starts evs = settles evs"
    by (intro exI [of _ evs] conjI)
       (rule e(1), rule sched_ok_prefix_facts [OF e(2), THEN conjunct1],
        rule sched_ok_prefix_facts [OF e(2), THEN conjunct2], rule e(3))
next
  assume "downloadChannel n E cl channelId offsetMsgId v = Some (r, v')"
  then obtain evs where e: "trace v' = trace v @ evs" "run_ok 0 0 evs"
    using run_step_downloadChannel unfolding run_step_def by blast
  have "\<forall>k. starts (take k evs) \<le> settles (take k evs) + MAX_PARALLEL_DOWNLOAD"
    using run_ok_bound [OF e(2)] by simp
  then show "\<exists>evs. trace v' = trace v @ evs \<and>
         (\<forall>k. starts (take k evs) \<le> settles (take k evs) + MAX_PARALLEL_DOWNLOAD)"
    using e(1) by blast
qed

text \<open>
  The theorem at a page of thirteen photos: the thirteenth task starts at position 62 of
  the trace, after twelve starts and twelve settlements and right after the timer; and at
  the run over the channel of three messages.
\<close>

theorem scheduler_bound_and_barrier_witness:
  "\<exists>evs v' evs'.
     trace (snd (download_stage burst_env (Some Client) burst_page demo_world)) = trace demo_world @ evs \<and>
     62 < length evs \<and> is_start (evs ! 62) \<and>
     starts (take 62 evs) = 12 \<and> settles (take 62 evs) = 12 \<and>
     starts (take 62 evs) < settles (take 62 evs) + MAX_PARALLEL_DOWNLOAD \<and>
     (\<exists>j. evs ! (62 - 1) = Sleep RATE_LIMIT_DELAY j) \<and>
     downloadChannel 5 demo_env (Some Client) (ChanNum 7) 0 demo_world = Some (Inr (), v') \<and>
     trace v' = trace demo_world @ evs' \<and>
     starts (take 10 evs') \<le> settles (take 10 evs') + MAX_PARALLEL_DOWNLOAD"
proof -
  obtain v' where run: "downloadChannel 5 demo_env (Some Client) (ChanNum 7) 0 demo_world = Some (Inr (), v')"
    by (rule demo_run_cases)
  note inst1 = scheduler_bound_and_barrier
            [of burst_env "Some Client" burst_page demo_world 5 "ChanNum 7" 0 demo_world "Inr ()" v',
             THEN conjunct1]
  note inst2 = scheduler_bound_and_barrier
            [of demo_env "Some Client" burst_page demo_world 5 "ChanNum 7" 0 demo_world "Inr ()" v',
             THEN conjunct2, rule_format, OF run]
  from inst1 obtain evs where e0:
      "trace (snd (download_stage burst_env (Some Client) burst_page demo_world)) = trace demo_world @ evs \<and>
      (\<forall>k. starts (take k evs) \<le> settles (take k evs) + MAX_PARALLEL_DOWNLOAD) \<and>
      (\<forall>k < length evs. is_start (evs ! k) \<longrightarrow>
          starts (take k evs) < settles (take k evs) + MAX_PARALLEL_DOWNLOAD \<and>
          settles (take k evs) =
            MAX_PARALLEL_DOWNLOAD * (starts (take k evs) div MAX_PARALLEL_DOWNLOAD) \<and>
          (0 < starts (take k evs) \<and> starts (take k evs) mod MAX_PARALLEL_DOWNLOAD = 0 \<longrightarrow>
             0 < k \<and> (\<exists>j. evs ! (k - 1) = Sleep RATE_LIMIT_DELAY j))) \<and>
      starts evs = settles evs" ..
  note e1 = e0 [THEN conjunct1]
  note e3 = e0 [THEN conjunct2, THEN conjunct2, THEN conjunct1, rule_format]
  from inst2 obtain evs' where e': "trace v' = trace demo_world @ evs' \<and>
         (\<forall>k. starts (take k evs') \<le> settles (take k evs') + MAX_PARALLEL_DOWNLOAD)" ..
  have ev: "evs = burst_trace"
    using e1 burst_stage_trace by (simp add: demo_world_def)
  have k1: "62 < length evs" and k2: "is_start (evs ! 62)" and k3: "starts (take 62 evs) = 12"
    by (simp_all add: ev burst_trace_def)
  note at = e3 [OF k1 k2]
  have c1: "starts (take 62 evs) < settles (take 62 evs) + MAX_PARALLEL_DOWNLOAD"
    by (rule at [THEN conjunct1])
  have c2: "settles (take 62 evs) = 12"
    using at [THEN conjunct2, THEN conjunct1] k3 by (simp add: MAX_PARALLEL_DOWNLOAD_def)
  have "0 < starts (take 62 evs) \<and> starts (take 62 evs) mod MAX_PARALLEL_DOWNLOAD = 0"
    using k3 by (simp add: MAX_PARALLEL_DOWNLOAD_def)
  note h = this
  have c3: "\<exists>j. evs ! (62 - 1) = Sleep RATE_LIMIT_DELAY j"
    by (rule at [THEN conjunct2, THEN conjunct2, THEN mp, OF h, THEN conjunct2])
  have c4: "starts (take 10 evs') \<le> settles (take 10 evs') + MAX_PARALLEL_DOWNLOAD"
    using e' by blast
  show ?thesis
    by (intro exI [of _ evs] exI [of _ v'] exI [of _ evs'] conjI)
       (rule e1, rule k1, rule k2, rule k3, rule c2, rule c1, rule c3, rule run,
        rule e' [THEN conjunct1], rule c4)
qed

section \<open>Crash resumption (C1)\<close>







section \<open>Counting downloads (C10)\<close>

lemma failing_stage_trace:
  "trace (snd (download_stage failing_env (Some Client) demo_page demo_world)) =
     [TaskStart 2, Requested 1000000, Sleep 500 500,
      ClientDownloadMedia 2 ''export/7/photo/2.jpg'', TaskSettle 2 False]"
  by (simp add: eval_defs failing_env_def demo_page_def)

lemma failing_stage_queued:
  "queued failing_env (Some Client) demo_page (page_start demo_world) = [demo_message 2 (Some photo)]"
  by (simp add: queued_def passes_filter_def examined_in_def page_start_def eval_defs failing_env_def
        demo_page_def upt_rec)


text \<open>
  C10. In the download stage of a page the loop examines the detail record at position
  \<open>k\<close> in the state \<open>examined_in \<dots> k\<close>; the queued records are those for which
  \<^verbatim>\<open>canDownload\<close> is truthy there. For exactly these a task starts, in their order, and
  every task that starts settles; over the stage \<^verbatim>\<open>totalDownloaded\<close> grows by the number
  of queued records and the counter of the batch ends at that number, whatever the
  downloads returned. For each task: its closure resolves with the verdict of
  \<^verbatim>\<open>downloadMessageMedia\<close> and adds one to both counters whatever the verdict, and the
  task calls the closure exactly once (it is never retried) and settles with that
  verdict. The state has no count of failed downloads.
\<close>

theorem failed_download_counted:
  "(\<exists>evs. trace (snd (download_stage E cl details w)) = trace w @ evs \<and>
      start_ids evs = map msg_id (queued E cl details (page_start w)) \<and>
      mset (map fst (settlements evs)) = mset (start_ids evs) \<and>
      totalDownloaded (snd (download_stage E cl details w)) =
        totalDownloaded w + int (length (queued E cl details (page_start w))) \<and>
      currentBatchDownloaded (snd (download_stage E cl details w)) =
        int (length (queued E cl details (page_start w)))) \<and>
   queued E cl details (page_start w) =
     map (nth details)
       (filter (\<lambda>k. truthy (canDownload E (details ! k) (examined_in E cl details (page_start w) k)))
          [0..<length details]) \<and>
   (\<forall>k. examined_in E cl details (page_start w) k =
      snd (download_loop E cl (take k details) []
             (w\<lparr>currentBatchDownloaded := 0, currentBatchSkipped := 0\<rparr>))) \<and>
   (\<forall>k < length details.
      truthy (canDownload E (details ! k) (examined_in E cl details (page_start w) k)) \<longrightarrow>
      details ! k \<in> set (queued E cl details (page_start w))) \<and>
   fst (download_fn E cl msg v) =
     fst (downloadMessageMedia E cl (Some msg) (Some (getMediaPath E msg (outputFolder v)))
            (wait E DOWNLOAD_DELAY v)) \<and>
   totalDownloaded (snd (download_fn E cl msg v)) = totalDownloaded v + 1 \<and>
   currentBatchDownloaded (snd (download_fn E cl msg v)) = currentBatchDownloaded v + 1 \<and>
   (\<exists>b. fst (download_fn E cl (task_msg t) (checkRateLimit_resume (task_gate t) w)) = Inr b \<and>
        task_run E cl t w =
          (Inr (Some b),
           emit (TaskSettle (msg_id (task_msg t)) b)
             (snd (download_fn E cl (task_msg t) (checkRateLimit_resume (task_gate t) w))))) \<and>
   totalDownloaded (snd (task_run E cl t w)) = totalDownloaded w + 1 \<and>
   currentBatchDownloaded (snd (task_run E cl t w)) = currentBatchDownloaded w + 1"
proof (intro conjI allI impI)
  obtain evs where e: "trace (snd (download_stage E cl details w)) = trace w @ evs"
      "start_ids evs = map msg_id (queued E cl details (page_start w))"
      "map fst (settlements evs) = start_ids evs"
      "totalDownloaded (snd (download_stage E cl details w)) =
        totalDownloaded w + int (length (queued E cl details (page_start w)))"
      "currentBatchDownloaded (snd (download_stage E cl details w)) =
        int (length (queued E cl details (page_start w)))"
    using download_stage_tasks [of E cl details w] by blast
  have m: "mset (map fst (settlements evs)) = mset (start_ids evs)"
    by (simp only: e(3))
  show "\<exists>evs. trace (snd (download_stage E cl details w)) = trace w @ evs \<and>
      start_ids evs = map msg_id (queued E cl details (page_start w)) \<and>
      mset (map fst (settlements evs)) = mset (start_ids evs) \<and>
      totalDownloaded (snd (download_stage E cl details w)) =
        totalDownloaded w + int (length (queued E cl details (page_start w))) \<and>
      currentBatchDownloaded (snd (download_stage E cl details w)) =
        int (length (queued E cl details (page_start w)))"
    by (intro exI [of _ evs] conjI) (rule e(1), rule e(2), rule m, rule e(4), rule e(5))
next
  show "queued E cl details (page_start w) =
     map (nth details)
       (filter (\<lambda>k. truthy (canDownload E (details ! k) (examined_in E cl details (page_start w) k)))
          [0..<length details])"
    by (simp add: queued_def passes_filter_def [abs_def])
next
  fix k
  show "examined_in E cl details (page_start w) k =
      snd (download_loop E cl (take k details) []
             (w\<lparr>currentBatchDownloaded := 0, currentBatchSkipped := 0\<rparr>))"
    by (simp add: examined_in_def page_start_def)
next
  fix k
  assume "k < length details"
    and "truthy (canDownload E (details ! k) (examined_in E cl details (page_start w) k))"
  then show "details ! k \<in> set (queued E cl details (page_start w))"
    by (simp add: queued_def passes_filter_def)
next
  let ?d = "downloadMessageMedia E cl (Some msg) (Some (getMediaPath E msg (outputFolder v)))
            (wait E DOWNLOAD_DELAY v)"
  obtain b where b: "fst ?d = Inr b"
    using downloadMessageMedia_resolves by blast
  then show "fst (download_fn E cl msg v) = fst ?d"
    by (cases ?d) (simp add: download_fn_def Let_def)
  obtain evs where s: "stage_step 1 evs v (snd (download_fn E cl msg v))"
    using download_fn_step by blast
  then show "totalDownloaded (snd (download_fn E cl msg v)) = totalDownloaded v + 1"
    "currentBatchDownloaded (snd (download_fn E cl msg v)) = currentBatchDownloaded v + 1"
    by (simp_all add: stage_step_def)
next
  let ?f = "download_fn E cl (task_msg t) (checkRateLimit_resume (task_gate t) w)"
  obtain b where b: "fst ?f = Inr b"
    using download_fn_resolves by blast
  then have "task_run E cl t w = (Inr (Some b), emit (TaskSettle (msg_id (task_msg t)) b) (snd ?f))"
    by (cases ?f) (simp add: task_run_def)
  then show "\<exists>b. fst ?f = Inr b \<and>
        task_run E cl t w = (Inr (Some b), emit (TaskSettle (msg_id (task_msg t)) b) (snd ?f))"
    using b by blast
  obtain evs where s: "stage_step 1 evs w (snd (task_run E cl t w))"
    using task_run_step by blast
  then show "totalDownloaded (snd (task_run E cl t w)) = totalDownloaded w + 1"
    "currentBatchDownloaded (snd (task_run E cl t w)) = currentBatchDownloaded w + 1"
    by (simp_all add: stage_step_def)
qed

text \<open>
  The theorem at the page of three messages, once where the download of the photo fails
  and once where it succeeds: the photo passes the filter, its task settles with the
  verdict of the download, and in both runs both counters end at 1.
\<close>

theorem failed_download_counted_witness:
  "1 < length demo_page \<and>
   truthy (canDownload failing_env (demo_page ! 1)
             (examined_in failing_env (Some Client) demo_page (page_start demo_world) 1)) \<and>
   demo_page ! 1 \<in> set (queued failing_env (Some Client) demo_page (page_start demo_world)) \<and>
   queued failing_env (Some Client) demo_page (page_start demo_world) = [demo_message 2 (Some photo)] \<and>
   trace (snd (download_stage failing_env (Some Client) demo_page demo_world)) =
     [TaskStart 2, Requested 1000000, Sleep 500 500,
      ClientDownloadMedia 2 ''export/7/photo/2.jpg'', TaskSettle 2 False] \<and>
   totalDownloaded (snd (download_stage failing_env (Some Client) demo_page demo_world)) = 1 \<and>
   currentBatchDownloaded (snd (download_stage failing_env (Some Client) demo_page demo_world)) = 1 \<and>
   settlements (trace (snd (download_stage demo_env (Some Client) demo_page demo_world))) =
     [(2, True)] \<and>
   totalDownloaded (snd (download_stage demo_env (Some Client) demo_page demo_world)) = 1 \<and>
   currentBatchDownloaded (snd (download_stage demo_env (Some Client) demo_page demo_world)) = 1 \<and>
   fst (task_run failing_env (Some Client) (Task (demo_message 2 (Some photo)) GateOpen) demo_world) =
     Inr (Some False) \<and>
   totalDownloaded (snd (task_run failing_env (Some Client)
                           (Task (demo_message 2 (Some photo)) GateOpen) demo_world)) =
     totalDownloaded demo_world + 1"
proof -
  note f = failed_download_counted [where E = failing_env and cl = "Some Client"
        and details = demo_page and w = demo_world
        and t = "Task (demo_message 2 (Some photo)) GateOpen"]
  note d = failed_download_counted [where E = demo_env and cl = "Some Client"
        and details = demo_page and w = demo_world]
  have k: "1 < length demo_page"
    by (simp add: demo_page_def)
  have p: "truthy (canDownload failing_env (demo_page ! 1)
             (examined_in failing_env (Some Client) demo_page (page_start demo_world) 1))"
    by (simp add: examined_in_def page_start_def eval_defs failing_env_def demo_page_def)
  have c3: "demo_page ! 1 \<in> set (queued failing_env (Some Client) demo_page (page_start demo_world))"
    by (rule f [THEN conjunct2, THEN conjunct2, THEN conjunct2, THEN conjunct1, rule_format, OF k p])
  have q: "queued failing_env (Some Client) demo_page (page_start demo_world) =
             [demo_message 2 (Some photo)]"
    by (rule failing_stage_queued)
  have q': "queued demo_env (Some Client) demo_page (page_start demo_world) =
             [demo_message 2 (Some photo)]"
    by (simp add: queued_def passes_filter_def examined_in_def page_start_def eval_defs
          demo_page_def upt_rec)
  from f [THEN conjunct1] obtain evs where e:
     "trace (snd (download_stage failing_env (Some Client) demo_page demo_world)) =
        trace demo_world @ evs \<and>
      start_ids evs = map msg_id (queued failing_env (Some Client) demo_page (page_start demo_world)) \<and>
      mset (map fst (settlements evs)) = mset (start_ids evs) \<and>
      totalDownloaded (snd (download_stage failing_env (Some Client) demo_page demo_world)) =
        totalDownloaded demo_world +
        int (length (queued failing_env (Some Client) demo_page (page_start demo_world))) \<and>
      currentBatchDownloaded (snd (download_stage failing_env (Some Client) demo_page demo_world)) =
        int (length (queued failing_env (Some Client) demo_page (page_start demo_world)))" ..
  have z: "totalDownloaded demo_world = 0"
    by (simp add: demo_world_def)
  have c6: "totalDownloaded (snd (download_stage failing_env (Some Client) demo_page demo_world)) = 1"
    using e [THEN conjunct2, THEN conjunct2, THEN conjunct2, THEN conjunct1]
    by (simp add: q z)
  have c7: "currentBatchDownloaded (snd (download_stage failing_env (Some Client) demo_page demo_world)) = 1"
    using e [THEN conjunct2, THEN conjunct2, THEN conjunct2, THEN conjunct2] by (simp add: q)
  from d [THEN conjunct1] obtain evs' where e':
     "trace (snd (download_stage demo_env (Some Client) demo_page demo_world)) =
        trace demo_world @ evs' \<and>
      start_ids evs' = map msg_id (queued demo_env (Some Client) demo_page (page_start demo_world)) \<and>
      mset (map fst (settlements evs')) = mset (start_ids evs') \<and>
      totalDownloaded (snd (download_stage demo_env (Some Client) demo_page demo_world)) =
        totalDownloaded demo_world +
        int (length (queued demo_env (Some Client) demo_page (page_start demo_world))) \<and>
      currentBatchDownloaded (snd (download_stage demo_env (Some Client) demo_page demo_world)) =
        int (length (queued demo_env (Some Client) demo_page (page_start demo_world)))" ..
  have c9: "totalDownloaded (snd (download_stage demo_env (Some Client) demo_page demo_world)) = 1"
    using e' [THEN conjunct2, THEN conjunct2, THEN conjunct2, THEN conjunct1]
    by (simp add: q' z)
  have c10: "currentBatchDownloaded (snd (download_stage demo_env (Some Client) demo_page demo_world)) = 1"
    using e' [THEN conjunct2, THEN conjunct2, THEN conjunct2, THEN conjunct2] by (simp add: q')
  have c8: "settlements (trace (snd (download_stage demo_env (Some Client) demo_page demo_world))) =
     [(2, True)]"
    by (simp add: eval_defs demo_page_def)
  have c11: "fst (task_run failing_env (Some Client) (Task (demo_message 2 (Some photo)) GateOpen)
                    demo_world) = Inr (Some False)"
    by (simp add: eval_defs failing_env_def)
  note c12 = f [THEN conjunct2, THEN conjunct2, THEN conjunct2, THEN conjunct2, THEN conjunct2,
                THEN conjunct2, THEN conjunct2, THEN conjunct2, THEN conjunct1]
  show ?thesis
    by (intro conjI) (rule k, rule p, rule c3, rule q, rule failing_stage_trace, rule c6, rule c7,
                      rule c8, rule c9, rule c10, rule c11, rule c12)
qed

end
